theory Spec2Isabelle
  imports Main
begin

section \<open>Text chunking: \<open>split_text\<close>\<close>

text \<open>
  A Python \<open>str\<close> is a sequence of Unicode code points; a code point is modelled
  by its number, so that \<open>len\<close> counts what Python counts.
\<close>

type_synonym ustring = "nat list"

text \<open>
  The code points on which \<open>str.split()\<close> (no separator given) splits: those for
  which \<open>str.isspace\<close> holds.
\<close>

definition is_space :: "nat \<Rightarrow> bool" where
  "is_space c \<longleftrightarrow>
     (9 \<le> c \<and> c \<le> 13) \<or> (28 \<le> c \<and> c \<le> 32) \<or> c = 133 \<or> c = 160 \<or> c = 5760 \<or>
     (8192 \<le> c \<and> c \<le> 8202) \<or> c = 8232 \<or> c = 8233 \<or> c = 8239 \<or> c = 8287 \<or> c = 12288"

text \<open>
  \<open>text.split()\<close>: the maximal runs of non-whitespace, in order; \<open>split_from cur cs\<close>
  scans \<open>cs\<close> with the run \<open>cur\<close> read so far.
\<close>

fun split_from :: "ustring \<Rightarrow> ustring \<Rightarrow> ustring list" where
  "split_from cur [] = (if cur = [] then [] else [cur])"
| "split_from cur (c # cs) =
     (if is_space c then (if cur = [] then split_from [] cs else cur # split_from [] cs)
      else split_from (cur @ [c]) cs)"

definition py_split :: "ustring \<Rightarrow> ustring list" where
  "py_split text = split_from [] text"

text \<open>\<open>sep.join(xs)\<close>.\<close>

fun join :: "ustring \<Rightarrow> ustring list \<Rightarrow> ustring" where
  "join sep [] = []"
| "join sep [x] = x"
| "join sep (x # y # ys) = x @ sep @ join sep (y # ys)"

text \<open>The string \<open>" "\<close>.\<close>

definition space :: ustring where
  "space = [32]"

text \<open>
  The \<open>for word in words\<close> loop of \<open>split_text\<close>, with the loop variables
  \<open>chunks\<close>, \<open>current_chunk\<close> and \<open>current_length\<close>, followed by the final
  \<open>if current_chunk:\<close>.
\<close>

fun split_loop :: "int \<Rightarrow> ustring list \<Rightarrow> ustring list \<Rightarrow> ustring list \<Rightarrow> int \<Rightarrow> ustring list" where
  "split_loop max_tokens [] chunks current_chunk current_length =
     (if current_chunk \<noteq> [] then chunks @ [join space current_chunk] else chunks)"
| "split_loop max_tokens (word # words) chunks current_chunk current_length =
     (let word_length = int (length word) + 1 in
      if current_length + word_length > max_tokens
      then split_loop max_tokens words (chunks @ [join space current_chunk]) [word] word_length
      else split_loop max_tokens words chunks (current_chunk @ [word]) (current_length + word_length))"

definition split_text :: "ustring \<Rightarrow> int \<Rightarrow> ustring list" where
  "split_text text max_tokens = split_loop max_tokens (py_split text) [] [] 0"

text \<open>A word: non-empty and free of whitespace.\<close>

definition is_word :: "ustring \<Rightarrow> bool" where
  "is_word w \<longleftrightarrow> w \<noteq> [] \<and> list_all (\<lambda>c. \<not> is_space c) w"

section \<open>The chess arbiter and the session loop\<close>

subsection \<open>The rules engine\<close>

text \<open>
  The notebook keeps one \<open>chess.Board\<close> object of the python-chess library. The
  library is not part of the repository, so the operations of the board that the notebook
  uses are parameters: a board value of type \<open>'b\<close>, moves of type \<open>'m\<close>, and one field per
  attribute or method. \<open>board_turn\<close> is \<open>True\<close> for white. \<open>board_push_san\<close> either
  raises a \<open>ValueError\<close> (\<open>Inl\<close>, with its message) and leaves the board as it was, or
  returns the board with the move pushed (\<open>Inr\<close>).
\<close>

record ('b, 'm) engine =
  board_reset :: 'b
  board_turn :: "'b \<Rightarrow> bool"
  board_legal_moves :: "'b \<Rightarrow> 'm list"
  board_generate_legal_captures :: "'b \<Rightarrow> 'm list"
  board_gives_check :: "'b \<Rightarrow> 'm \<Rightarrow> bool"
  board_move_stack :: "'b \<Rightarrow> 'm list"
  board_san :: "'b \<Rightarrow> 'm \<Rightarrow> string"
  board_push_san :: "'b \<Rightarrow> string \<Rightarrow> string + 'b"
  board_is_checkmate :: "'b \<Rightarrow> bool"
  board_is_stalemate :: "'b \<Rightarrow> bool"
  board_is_insufficient_material :: "'b \<Rightarrow> bool"
  board_is_seventyfive_moves :: "'b \<Rightarrow> bool"
  board_is_fivefold_repetition :: "'b \<Rightarrow> bool"

subsection \<open>The globals and the tool functions\<close>

text \<open>
  The two globals of the notebook, \<open>board\<close> and \<open>ai_pos\<close>, and the functions over
  them. \<open>get_move_history\<close> is given no definition: it applies \<open>board.san\<close> on the
  current board to the moves of \<open>board.move_stack\<close>, which are moves of earlier
  boards, and python-chess may then raise instead of returning a text. The function
  does not change the board, and its result or exception goes only to the agent; it
  appears below as the tool \<open>Get_move_history\<close>.
\<close>

record 'b game =
  board :: 'b
  ai_pos :: int

datatype error = ValueError string | IndexError

definition legal_moves :: "('b, 'm) engine \<Rightarrow> 'b game \<Rightarrow> string list" where
  "legal_moves E g = map (board_san E (board g)) (board_legal_moves E (board g))"

definition possible_captures :: "('b, 'm) engine \<Rightarrow> 'b game \<Rightarrow> string list" where
  "possible_captures E g = map (board_san E (board g)) (board_generate_legal_captures E (board g))"

definition possible_checks :: "('b, 'm) engine \<Rightarrow> 'b game \<Rightarrow> string list" where
  "possible_checks E g =
     map (board_san E (board g))
       (filter (board_gives_check E (board g)) (board_legal_moves E (board g)))"

definition is_ai_turn :: "('b, 'm) engine \<Rightarrow> 'b game \<Rightarrow> bool" where
  "is_ai_turn E g \<longleftrightarrow> board_turn E (board g) = (ai_pos g = 0)"

text \<open>
  The two move-submission functions return the exception raised, if any, and the globals
  after the call.
\<close>

definition make_ai_move :: "('b, 'm) engine \<Rightarrow> string \<Rightarrow> 'b game \<Rightarrow> error option \<times> 'b game" where
  "make_ai_move E move g =
     (if is_ai_turn E g then
        (case board_push_san E (board g) move of
           Inr b \<Rightarrow> (None, g\<lparr>board := b\<rparr>)
         | Inl e \<Rightarrow> (Some (ValueError e), g))
      else (Some (ValueError ''Not AI's turn.''), g))"

definition make_user_move :: "('b, 'm) engine \<Rightarrow> string \<Rightarrow> 'b game \<Rightarrow> error option \<times> 'b game" where
  "make_user_move E move g =
     (if \<not> is_ai_turn E g then
        (case board_push_san E (board g) move of
           Inr b \<Rightarrow> (None, g\<lparr>board := b\<rparr>)
         | Inl e \<Rightarrow> (Some (ValueError e), g))
      else (Some (ValueError ''Not player's turn.''), g))"

definition get_end_state :: "('b, 'm) engine \<Rightarrow> 'b game \<Rightarrow> string option" where
  "get_end_state E g =
     (if board_is_checkmate E (board g) then Some ''Checkmate!''
      else if board_is_stalemate E (board g) then Some ''Stalemate!''
      else if board_is_insufficient_material E (board g) then Some ''Draw by insufficient material!''
      else if board_is_seventyfive_moves E (board g) then Some ''Draw by 75-move rule!''
      else if board_is_fivefold_repetition E (board g) then Some ''Draw by fivefold repetition!''
      else None)"

subsection \<open>What the session does, as a list of events\<close>

text \<open>
  The functions of the notebook that an agent can be handed as tools.
\<close>

datatype tool =
    Get_move_history | Legal_moves | Possible_captures | Possible_checks
  | Is_ai_turn | Make_ai_move | Make_user_move

text \<open>
  The session is observed through the events it produces, in order: \<open>Act tools n\<close> is a
  call of \<open>model.act\<close> with that tool list and \<open>max_prediction_rounds = n\<close>;
  \<open>Call t arg\<close> is a call of the tool function \<open>t\<close> (of \<open>make_ai_move\<close> and
  \<open>make_user_move\<close> also when the loop itself calls them); \<open>Pushed b\<close> records that
  the call before it pushed a move and left the board \<open>b\<close>; \<open>Prompt p\<close> is a call of
  \<open>input(p)\<close> and \<open>Entered s\<close> the line it returned; \<open>Board_after_move n\<close> and
  \<open>Display white b\<close> are the line and the picture of \<open>update_board\<close>; \<open>Print s\<close>
  and \<open>Print_moves ms\<close> are the other \<open>print\<close> calls.
\<close>

datatype 'b event =
    Act "tool list" nat
  | Call tool string
  | Pushed 'b
  | Prompt string
  | Entered string
  | Board_after_move nat
  | Display bool 'b
  | Print string
  | Print_moves "string list"

subsection \<open>The agent\<close>

text \<open>
  \<open>model.act\<close> belongs to an external library. The agent is a parameter: what it asks
  for during one invocation is a list of prediction rounds, each a list of tool calls
  (the tool and the text it passes as \<open>move\<close>; tools without a parameter ignore the text).
  Only the first \<open>max_prediction_rounds\<close> rounds run, only tools of the list handed to
  \<open>model.act\<close> are called, and an exception raised by a tool goes back to the agent and
  not to the loop.
\<close>

type_synonym tool_call = "tool \<times> string"

definition call_tool :: "('b, 'm) engine \<Rightarrow> tool_call \<Rightarrow> 'b game \<Rightarrow> 'b game \<times> 'b event list" where
  "call_tool E c g =
     (case c of
        (Make_ai_move, move) \<Rightarrow>
          (case make_ai_move E move g of
             (None, g') \<Rightarrow> (g', [Call Make_ai_move move, Pushed (board g')])
           | (Some e, g') \<Rightarrow> (g', [Call Make_ai_move move]))
      | (Make_user_move, move) \<Rightarrow>
          (case make_user_move E move g of
             (None, g') \<Rightarrow> (g', [Call Make_user_move move, Pushed (board g')])
           | (Some e, g') \<Rightarrow> (g', [Call Make_user_move move]))
      | (t, arg) \<Rightarrow> (g, [Call t arg]))"

fun run_calls :: "('b, 'm) engine \<Rightarrow> tool list \<Rightarrow> tool_call list \<Rightarrow> 'b game \<Rightarrow> 'b game \<times> 'b event list" where
  "run_calls E tools [] g = (g, [])"
| "run_calls E tools (c # cs) g =
     (if fst c \<in> set tools then
        (case call_tool E c g of (g1, ev1) \<Rightarrow>
           (case run_calls E tools cs g1 of (g2, ev2) \<Rightarrow> (g2, ev1 @ ev2)))
      else run_calls E tools cs g)"

definition act :: "('b, 'm) engine \<Rightarrow> tool_call list list \<Rightarrow> tool list \<Rightarrow> nat \<Rightarrow> 'b game \<Rightarrow> 'b game \<times> 'b event list" where
  "act E rounds tools max_prediction_rounds g =
     (case run_calls E tools (concat (take max_prediction_rounds rounds)) g of
        (g', ev) \<Rightarrow> (g', Act tools max_prediction_rounds # ev))"

subsection \<open>The session loop\<close>

text \<open>
  The automated turn: \<open>model.act\<close> with the five tools and five rounds, then the
  failsafe \<open>if is_ai_turn(): make_ai_move(legal_moves()[0])\<close>. An exception of the
  failsafe is not caught.
\<close>

definition failsafe :: "('b, 'm) engine \<Rightarrow> 'b game \<Rightarrow> error option \<times> 'b game \<times> 'b event list" where
  "failsafe E g =
     (if is_ai_turn E g then
        (case legal_moves E g of
           [] \<Rightarrow> (Some IndexError, g, [])
         | move # _ \<Rightarrow>
             (case make_ai_move E move g of
                (None, g') \<Rightarrow> (None, g', [Call Make_ai_move move, Pushed (board g')])
              | (Some e, g') \<Rightarrow> (Some e, g', [Call Make_ai_move move])))
      else (None, g, []))"

definition ai_turn :: "('b, 'm) engine \<Rightarrow> tool_call list list \<Rightarrow> 'b game \<Rightarrow> error option \<times> 'b game \<times> 'b event list" where
  "ai_turn E rounds g =
     (case act E rounds
         [Get_move_history, Legal_moves, Possible_captures, Possible_checks, Make_ai_move] 5 g of
        (g1, ev1) \<Rightarrow> (case failsafe E g1 of (r, g2, ev2) \<Rightarrow> (r, g2, ev1 @ ev2)))"

definition update_board :: "'b game \<Rightarrow> nat \<Rightarrow> 'b event list" where
  "update_board g move = [Board_after_move (move + 1), Display (ai_pos g = 1) (board g)]"

text \<open>
  How the session ends: a game-over message of \<open>get_end_state\<close>, the user's
  \<open>quit\<close>, an uncaught exception, or \<open>input\<close> waiting for a line that never comes.
\<close>

datatype outcome = Game_over string | User_quit | Uncaught error | Awaiting_input

text \<open>
  After a turn: \<open>update_board(move)\<close>, \<open>move += 1\<close> (done by the caller's next
  \<open>move\<close>), and the test of \<open>get_end_state()\<close>; \<open>Some\<close> is the \<open>break\<close>.
\<close>

definition end_check :: "('b, 'm) engine \<Rightarrow> 'b game \<Rightarrow> nat \<Rightarrow> outcome option \<times> 'b event list" where
  "end_check E g move =
     (case get_end_state E g of
        Some game_over_message \<Rightarrow>
          (Some (Game_over game_over_message), update_board g move @ [Print game_over_message])
      | None \<Rightarrow> (None, update_board g move))"

text \<open>
  \<open>str.lower\<close>, on the letters A to Z. The loop only compares the lowered line with
  \<open>'quit'\<close> and \<open>'help'\<close>, and no character outside A to Z lowers to a letter of
  these two words, so both comparisons come out as in Python.
\<close>

definition lower_char :: "char \<Rightarrow> char" where
  "lower_char c =
     (case map_of (zip ''ABCDEFGHIJKLMNOPQRSTUVWXYZ'' ''abcdefghijklmnopqrstuvwxyz'') c of
        Some d \<Rightarrow> d
      | None \<Rightarrow> c)"

definition lower :: "string \<Rightarrow> string" where
  "lower s = map lower_char s"

definition prompt_black :: string where
  "prompt_black = ''User (Playing Black): Input your move. Input 'help' to see the list of possible moves. Input 'quit' to end the game ->''"

definition prompt_white :: string where
  "prompt_white = ''User (Playing White): Input your move. Input 'help' to see the list of possible moves. Input 'quit' to end the game ->''"

text \<open>
  The inner \<open>while True\<close> of the user's turn, over the lines that \<open>input\<close> will
  return. It ends with a move made, with \<open>userEndGame\<close> set, with an exception that
  \<open>except ValueError\<close> does not catch, or waiting when no line is left.
\<close>

datatype user_result = Moved | Quit | Raised error | Blocked

fun user_loop :: "('b, 'm) engine \<Rightarrow> string \<Rightarrow> 'b game \<Rightarrow> string list \<Rightarrow> user_result \<times> 'b game \<times> 'b event list \<times> string list" where
  "user_loop E p g [] = (Blocked, g, [Prompt p], [])"
| "user_loop E p g (user_move # rest) =
     (if lower user_move = ''quit'' then
        (Quit, g, [Prompt p, Entered user_move, Print ''Game ended by user.''], rest)
      else if lower user_move = ''help'' then
        (case user_loop E p g rest of (r, g', ev, rest') \<Rightarrow>
           (r, g', [Prompt p, Entered user_move, Print_moves (legal_moves E g)] @ ev, rest'))
      else
        (case make_user_move E user_move g of
           (None, g') \<Rightarrow>
             (Moved, g', [Prompt p, Entered user_move, Call Make_user_move user_move, Pushed (board g')], rest)
         | (Some (ValueError e), g') \<Rightarrow>
             (case user_loop E p g' rest of (r, g'', ev, rest') \<Rightarrow>
                (r, g'', [Prompt p, Entered user_move, Call Make_user_move user_move, Print e] @ ev, rest'))
         | (Some e, g') \<Rightarrow>
             (Raised e, g', [Prompt p, Entered user_move, Call Make_user_move user_move], rest)))"

text \<open>
  The two halves of the body of the outer loop: the automated turn with its end check,
  and the user's turn with the test of \<open>userEndGame\<close> and its end check. \<open>Some\<close> is a
  \<open>break\<close> (or an exception).
\<close>

definition ai_phase :: "('b, 'm) engine \<Rightarrow> tool_call list list \<Rightarrow> 'b game \<Rightarrow> nat \<Rightarrow> outcome option \<times> 'b game \<times> 'b event list" where
  "ai_phase E rounds g move =
     (case ai_turn E rounds g of
        (Some e, g', ev) \<Rightarrow> (Some (Uncaught e), g', ev)
      | (None, g', ev) \<Rightarrow> (case end_check E g' move of (r, ev') \<Rightarrow> (r, g', ev @ ev')))"

definition user_phase :: "('b, 'm) engine \<Rightarrow> string \<Rightarrow> 'b game \<Rightarrow> nat \<Rightarrow> string list \<Rightarrow> outcome option \<times> 'b game \<times> 'b event list \<times> string list" where
  "user_phase E p g move inputs =
     (case user_loop E p g inputs of
        (Moved, g', ev, rest) \<Rightarrow> (case end_check E g' move of (r, ev') \<Rightarrow> (r, g', ev @ ev', rest))
      | (Quit, g', ev, rest) \<Rightarrow> (Some User_quit, g', ev, rest)
      | (Raised e, g', ev, rest) \<Rightarrow> (Some (Uncaught e), g', ev, rest)
      | (Blocked, g', ev, rest) \<Rightarrow> (Some Awaiting_input, g', ev, rest))"

lemma user_loop_consumes:
  "user_loop E p g inputs = (Moved, g', ev, rest) \<Longrightarrow> length rest < length inputs"
proof (induction inputs arbitrary: g g' ev rest)
  case Nil
  then show ?case by simp
next
  case (Cons s inputs)
  then show ?case
    by (fastforce split: if_splits prod.splits option.splits error.splits)
qed

lemma user_phase_consumes:
  "user_phase E p g move inputs = (None, g', ev, rest) \<Longrightarrow> length rest < length inputs"
  by (auto simp: user_phase_def split: prod.splits user_result.splits dest: user_loop_consumes)

text \<open>
  The outer \<open>while True\<close>. \<open>agent move\<close> is what the agent asks for when invoked at
  move count \<open>move\<close>; \<open>inputs\<close> are the lines still to come.
\<close>

function main_loop :: "('b, 'm) engine \<Rightarrow> (nat \<Rightarrow> tool_call list list) \<Rightarrow> 'b game \<Rightarrow> nat \<Rightarrow> string list \<Rightarrow> outcome \<times> 'b game \<times> 'b event list" where
  "main_loop E agent g move inputs =
     (if ai_pos g = 0 then
        (case ai_phase E (agent move) g move of
           (Some out, g1, ev1) \<Rightarrow> (out, g1, ev1)
         | (None, g1, ev1) \<Rightarrow>
             (case user_phase E prompt_black g1 (move + 1) inputs of
                (Some out, g2, ev2, rest) \<Rightarrow> (out, g2, ev1 @ ev2)
              | (None, g2, ev2, rest) \<Rightarrow>
                  (case main_loop E agent g2 (move + 2) rest of
                     (out, g3, ev3) \<Rightarrow> (out, g3, ev1 @ ev2 @ ev3))))
      else
        (case user_phase E prompt_white g move inputs of
           (Some out, g1, ev1, rest) \<Rightarrow> (out, g1, ev1)
         | (None, g1, ev1, rest) \<Rightarrow>
             (case ai_phase E (agent (move + 1)) g1 (move + 1) of
                (Some out, g2, ev2) \<Rightarrow> (out, g2, ev1 @ ev2)
              | (None, g2, ev2) \<Rightarrow>
                  (case main_loop E agent g2 (move + 2) rest of
                     (out, g3, ev3) \<Rightarrow> (out, g3, ev1 @ ev2 @ ev3)))))"
  by pat_completeness auto

termination
  by (relation "measure (\<lambda>(E, agent, g, move, inputs). length inputs)")
     (auto dest: user_phase_consumes [OF sym])

text \<open>
  The cell that plays the match: \<open>board.reset()\<close>, the draw of \<open>ai_pos\<close>
  (\<open>round(random.random())\<close>, here the parameter \<open>coin\<close>), the first picture, the loop.
\<close>

definition play :: "('b, 'm) engine \<Rightarrow> int \<Rightarrow> (nat \<Rightarrow> tool_call list list) \<Rightarrow> string list \<Rightarrow> outcome \<times> 'b game \<times> 'b event list" where
  "play E coin agent inputs =
     (let g = \<lparr>board = board_reset E, ai_pos = coin\<rparr> in
      case main_loop E agent g 0 inputs of
        (out, g', ev) \<Rightarrow> (out, g', Display (coin = 1) (board g) # ev))"

section \<open>What is assumed of the rules engine\<close>

text \<open>
  Two properties of a chess rules engine that the notebook relies on, each stated for
  every board: \<open>push_san\<close> accepts the notation of every legal move of the board, and
  a pushed move passes the turn to the other colour. A theorem that needs one of them
  takes it as a hypothesis. The converse of the first is not assumed: \<open>push_san\<close> of
  python-chess also accepts texts that \<open>board.san\<close> never returns.
\<close>

definition accepts_listed :: "('b, 'm) engine \<Rightarrow> bool" where
  "accepts_listed E \<longleftrightarrow>
     (\<forall>b move. move \<in> set (map (board_san E b) (board_legal_moves E b)) \<longrightarrow>
        (\<exists>b'. board_push_san E b move = Inr b'))"

definition push_flips :: "('b, 'm) engine \<Rightarrow> bool" where
  "push_flips E \<longleftrightarrow>
     (\<forall>b move b'. board_push_san E b move = Inr b' \<longrightarrow> board_turn E b' = (\<not> board_turn E b))"

section \<open>A small engine to run the definitions on\<close>

text \<open>
  A take-away game with the interface of the engine: three tokens lie on the table, the
  two sides alternately take one or two (the moves \<open>''1''\<close> and \<open>''2''\<close>), white
  first, and the side to move with no token left is mated. The board is the list of the
  moves made so far.
\<close>

type_synonym nim = "nat list"

definition nim_pile :: "nim \<Rightarrow> nat" where
  "nim_pile b = 3 - sum_list b"

definition nim_legal_moves :: "nim \<Rightarrow> nat list" where
  "nim_legal_moves b = filter (\<lambda>k. k \<le> nim_pile b) [1, 2]"

definition nim_san :: "nim \<Rightarrow> nat \<Rightarrow> string" where
  "nim_san b k = (if k = 1 then ''1'' else ''2'')"

definition nim_push_san :: "nim \<Rightarrow> string \<Rightarrow> string + nim" where
  "nim_push_san b s =
     (if s = ''1'' \<and> 1 \<le> nim_pile b then Inr (b @ [1])
      else if s = ''2'' \<and> 2 \<le> nim_pile b then Inr (b @ [2])
      else Inl ''illegal san'')"

definition nim_engine :: "(nim, nat) engine" where
  "nim_engine =
     \<lparr>board_reset = [],
      board_turn = (\<lambda>b. even (length b)),
      board_legal_moves = nim_legal_moves,
      board_generate_legal_captures = (\<lambda>b. []),
      board_gives_check = (\<lambda>b k. k = nim_pile b),
      board_move_stack = (\<lambda>b. b),
      board_san = nim_san,
      board_push_san = nim_push_san,
      board_is_checkmate = (\<lambda>b. nim_pile b = 0),
      board_is_stalemate = (\<lambda>b. False),
      board_is_insufficient_material = (\<lambda>b. False),
      board_is_seventyfive_moves = (\<lambda>b. False),
      board_is_fivefold_repetition = (\<lambda>b. False)\<rparr>"

text \<open>
  The same engine with one more text accepted, as \<open>push_san\<close> of python-chess accepts
  the null move \<open>--\<close>: the text is not the notation of any legal move, and pushing it
  passes the turn and takes nothing.
\<close>

definition null_move_engine :: "(nim, nat) engine" where
  "null_move_engine =
     nim_engine\<lparr>board_push_san := (\<lambda>b s. if s = ''--'' then Inr (b @ [0]) else nim_push_san b s)\<rparr>"

section \<open>Predicates on event lists\<close>

text \<open>
  \<open>is_call\<close> holds of the calls of tool functions; \<open>pushes\<close> lists the boards of the
  moves pushed, in order; \<open>only_tools tools\<close> holds of the calls of tools in \<open>tools\<close>
  and of the pushes they make.
\<close>

fun is_call :: "'b event \<Rightarrow> bool" where
  "is_call (Call t arg) = True"
| "is_call _ = False"

fun pushes :: "'b event list \<Rightarrow> 'b list" where
  "pushes [] = []"
| "pushes (Pushed b # ev) = b # pushes ev"
| "pushes (_ # ev) = pushes ev"

fun only_tools :: "tool list \<Rightarrow> 'b event \<Rightarrow> bool" where
  "only_tools tools (Call t arg) = (t \<in> set tools)"
| "only_tools tools (Pushed b) = True"
| "only_tools tools _ = False"

text \<open>
  \<open>marks M ev\<close> lists every event of \<open>ev\<close> that satisfies \<open>M\<close>, each with the
  events that follow it. \<open>is_quit\<close> holds of an entered line that lowers to
  \<open>quit\<close>, \<open>is_push\<close> of a pushed move.
\<close>

fun marks :: "('e \<Rightarrow> bool) \<Rightarrow> 'e list \<Rightarrow> ('e \<times> 'e list) list" where
  "marks M [] = []"
| "marks M (e # es) = (if M e then (e, es) # marks M es else marks M es)"

fun is_quit :: "'b event \<Rightarrow> bool" where
  "is_quit (Entered s) = (lower s = ''quit'')"
| "is_quit _ = False"

fun is_push :: "'b event \<Rightarrow> bool" where
  "is_push (Pushed b) = True"
| "is_push _ = False"

text \<open>
  \<open>phases_keep E M R\<close>: whenever an event satisfying \<open>M\<close> occurs in a half of the
  loop body, \<open>R\<close> holds of the event, the outcome, the final globals and the events
  after it: of those of the half when it ends the session, and of those followed by any
  others, under any outcome and final globals, when the loop goes on.
\<close>

definition phases_keep :: "('b, 'm) engine \<Rightarrow> ('b event \<Rightarrow> bool) \<Rightarrow> ('b event \<Rightarrow> outcome \<Rightarrow> 'b game \<Rightarrow> 'b event list \<Rightarrow> bool) \<Rightarrow> bool" where
  "phases_keep E M R \<longleftrightarrow>
     (\<forall>rounds g move res g' ev e post.
        ai_phase E rounds g move = (res, g', ev) \<longrightarrow> (e, post) \<in> set (marks M ev) \<longrightarrow>
        (case res of Some out \<Rightarrow> R e out g' post | None \<Rightarrow> (\<forall>out gf later. R e out gf (post @ later)))) \<and>
     (\<forall>p g move inputs res g' ev rest e post.
        user_phase E p g move inputs = (res, g', ev, rest) \<longrightarrow> (e, post) \<in> set (marks M ev) \<longrightarrow>
        (case res of Some out \<Rightarrow> R e out g' post | None \<Rightarrow> (\<forall>out gf later. R e out gf (post @ later))))"

text \<open>
  \<open>ply_tail E e out g post\<close>, of a pushed move \<open>e\<close> that left the board \<open>b\<close>: what
  follows is only tool calls, then the line and the picture of \<open>update_board\<close> with
  the board \<open>b\<close>; and if \<open>get_end_state()\<close> has a message on that board, the message
  is printed next and last, the session is over with that message, and \<open>b\<close> is the
  final board.
\<close>

definition ply_tail :: "('b, 'm) engine \<Rightarrow> 'b event \<Rightarrow> outcome \<Rightarrow> 'b game \<Rightarrow> 'b event list \<Rightarrow> bool" where
  "ply_tail E e out g post \<longleftrightarrow>
     (\<exists>b calls n w rest.
        e = Pushed b \<and> list_all is_call calls \<and>
        post = calls @ Board_after_move n # Display w b # rest \<and>
        (\<forall>msg. get_end_state E (g\<lparr>board := b\<rparr>) = Some msg \<longrightarrow>
           out = Game_over msg \<and> board g = b \<and> rest = [Print msg]))"

section \<open>Properties of \<open>split_text\<close>\<close>

lemma split_from_words:
  "cur = [] \<or> is_word cur \<Longrightarrow> list_all is_word (split_from cur cs)"
  by (induction cur cs rule: split_from.induct) (auto simp: is_word_def)

lemma py_split_words: "list_all is_word (py_split text)"
  by (simp add: py_split_def split_from_words)

lemma split_from_space:
  "is_space s \<Longrightarrow> split_from cur (a @ s # b) = split_from cur a @ split_from [] b"
  by (induction cur a rule: split_from.induct) auto

lemma split_from_word:
  "list_all (\<lambda>c. \<not> is_space c) w \<Longrightarrow> cur @ w \<noteq> [] \<Longrightarrow> split_from cur w = [cur @ w]"
  by (induction cur w rule: split_from.induct) auto

lemma py_split_word: "is_word w \<Longrightarrow> py_split w = [w]"
  by (simp add: py_split_def is_word_def split_from_word)

lemma py_split_Nil: "py_split [] = []"
  by (simp add: py_split_def)

lemma py_split_space:
  "py_split (a @ space @ b) = py_split a @ py_split b"
  by (simp add: py_split_def space_def split_from_space is_space_def)

lemma py_split_join_words:
  "list_all is_word ws \<Longrightarrow> py_split (join space ws) = ws"
  by (induction space ws rule: join.induct) (simp_all add: py_split_Nil py_split_word py_split_space)

text \<open>Joining chunks, each the join of a (possibly empty) list of words.\<close>

lemma py_split_join_chunks:
  "list_all (list_all is_word) css \<Longrightarrow>
   py_split (join space (map (join space) css)) = concat css"
proof (induction css)
  case Nil
  then show ?case by (simp add: py_split_Nil)
next
  case (Cons cs css)
  show ?case
  proof (cases css)
    case Nil
    with Cons.prems show ?thesis by (simp add: py_split_join_words)
  next
    case (Cons ds dss)
    with Cons.prems Cons.IH show ?thesis
      by (simp add: py_split_space py_split_join_words)
  qed
qed

text \<open>
  The loop returns the joins of a grouping of the words: the groups already closed, then
  a grouping of the open chunk followed by the remaining words.
\<close>

lemma split_loop_grouping:
  "\<exists>css. split_loop max_tokens words (map (join space) pcs) cur len = map (join space) css
        \<and> concat css = concat pcs @ cur @ words"
proof (induction words arbitrary: pcs cur len)
  case Nil
  show ?case
  proof (cases "cur = []")
    case True
    then show ?thesis by auto
  next
    case False
    have "map (join space) pcs @ [join space cur] = map (join space) (pcs @ [cur])"
      by simp
    moreover have "concat (pcs @ [cur]) = concat pcs @ cur @ []"
      by simp
    ultimately show ?thesis using False by (metis split_loop.simps(1))
  qed
next
  case (Cons word words)
  show ?case
  proof (cases "len + (int (length word) + 1) > max_tokens")
    case True
    from Cons.IH [of "pcs @ [cur]" "[word]" "int (length word) + 1"]
    obtain css where
      "split_loop max_tokens words (map (join space) (pcs @ [cur])) [word] (int (length word) + 1)
         = map (join space) css"
      and "concat css = concat (pcs @ [cur]) @ [word] @ words"
      by blast
    with True show ?thesis by (auto simp: Let_def)
  next
    case False
    from Cons.IH [of pcs "cur @ [word]" "len + (int (length word) + 1)"]
    obtain css where
      "split_loop max_tokens words (map (join space) pcs) (cur @ [word]) (len + (int (length word) + 1))
         = map (join space) css"
      and "concat css = concat pcs @ (cur @ [word]) @ words"
      by blast
    with False show ?thesis by (auto simp: Let_def)
  qed
qed

lemma split_text_grouping:
  "\<exists>css. split_text text max_tokens = map (join space) css \<and> concat css = py_split text"
  using split_loop_grouping [of max_tokens "py_split text" "[]" "[]" 0]
  by (simp add: split_text_def)

lemma concat_all_words:
  "list_all is_word (concat css) \<Longrightarrow> list_all (list_all is_word) css"
  by (induction css) auto

text \<open>A first word longer than \<open>max_tokens\<close> leaves an empty first chunk.\<close>

lemma split_text_example:
  "split_text [97, 98, 32, 32, 99] 2 = [[], [97, 98], [99]]"
  by (simp add: split_text_def py_split_def is_space_def space_def)

text \<open>
  C10. Splitting the space-join of the chunks returned by \<open>split_text text max_tokens\<close>
  on whitespace gives the same sequence of words as splitting \<open>text\<close> on whitespace: no
  word is dropped, duplicated or reordered. This holds for every \<open>max_tokens\<close>, so in
  particular for every positive one.
\<close>

theorem split_text_preserves_words:
  "py_split (join space (split_text text max_tokens)) = py_split text"
proof -
  obtain css where chunks: "split_text text max_tokens = map (join space) css"
    and words: "concat css = py_split text"
    using split_text_grouping by blast
  have "list_all (list_all is_word) css"
    using words py_split_words [of "text"] by (simp add: concat_all_words)
  then show ?thesis
    using chunks words by (simp add: py_split_join_chunks)
qed

section \<open>The small engines meet the two assumptions\<close>

lemmas nim_defs = nim_engine_def nim_legal_moves_def nim_san_def nim_push_san_def nim_pile_def

lemma nim_accepts_listed: "accepts_listed nim_engine"
  by (auto simp: accepts_listed_def nim_engine_def nim_push_san_def nim_legal_moves_def nim_san_def)

lemma nim_push_flips: "push_flips nim_engine"
  by (auto simp: push_flips_def nim_engine_def nim_push_san_def split: if_splits)

lemma null_move_accepts_listed: "accepts_listed null_move_engine"
  by (auto simp: accepts_listed_def null_move_engine_def nim_engine_def nim_push_san_def
      nim_legal_moves_def nim_san_def)

lemma null_move_push_flips: "push_flips null_move_engine"
  by (auto simp: push_flips_def null_move_engine_def nim_engine_def nim_push_san_def
      split: if_splits)

section \<open>The move-submission functions\<close>

lemma make_ai_move_cases:
  "make_ai_move E move g = (r, g') \<Longrightarrow>
   (r \<noteq> None \<and> g' = g) \<or>
   (r = None \<and> is_ai_turn E g \<and> board_push_san E (board g) move = Inr (board g') \<and>
    g' = g\<lparr>board := board g'\<rparr>)"
  by (auto simp: make_ai_move_def split: if_splits sum.splits)

lemma make_user_move_cases:
  "make_user_move E move g = (r, g') \<Longrightarrow>
   (r \<noteq> None \<and> g' = g) \<or>
   (r = None \<and> \<not> is_ai_turn E g \<and> board_push_san E (board g) move = Inr (board g') \<and>
    g' = g\<lparr>board := board g'\<rparr>)"
  by (auto simp: make_user_move_def split: if_splits sum.splits)

lemma is_ai_turn_board_update:
  "push_flips E \<Longrightarrow> board_push_san E (board g) move = Inr b \<Longrightarrow>
   is_ai_turn E (g\<lparr>board := b\<rparr>) = (\<not> is_ai_turn E g)"
  by (auto simp: push_flips_def is_ai_turn_def)

text \<open>
  C1, as amended. For every state of the globals and every move text, in
  \<open>legal_moves()\<close> or not, \<open>make_ai_move\<close> and \<open>make_user_move\<close> each test the
  turn first and hand the text to \<open>board.push_san\<close> only on their own side's turn.
  Out of turn the call raises the wrong-turn error (\<open>Not AI's turn.\<close>,
  \<open>Not player's turn.\<close>); on the side's turn, whenever \<open>board.push_san\<close> rejects the
  text, the call raises a \<open>ValueError\<close> with the engine's message. In both cases the
  globals are left as they were. Nothing is said of a text outside \<open>legal_moves()\<close>
  that \<open>board.push_san\<close> accepts.
\<close>

theorem illegal_move_rejected:
  "(is_ai_turn E g \<longrightarrow> board_push_san E (board g) move = Inl e \<longrightarrow>
      make_ai_move E move g = (Some (ValueError e), g)) \<and>
   (\<not> is_ai_turn E g \<longrightarrow>
      make_ai_move E move g = (Some (ValueError ''Not AI's turn.''), g)) \<and>
   (\<not> is_ai_turn E g \<longrightarrow> board_push_san E (board g) move = Inl e \<longrightarrow>
      make_user_move E move g = (Some (ValueError e), g)) \<and>
   (is_ai_turn E g \<longrightarrow>
      make_user_move E move g = (Some (ValueError ''Not player's turn.''), g))"
  by (simp add: make_ai_move_def make_user_move_def)

text \<open>
  On the starting board of the small engine, with the agent playing white, the text
  \<open>e9\<close> is rejected by the engine: the agent gets the engine's error, the user the
  wrong-turn error. After the agent's move \<open>1\<close> the same text gives the user the
  engine's error and the agent the wrong-turn error.
\<close>

theorem illegal_move_rejected_witness:
  "is_ai_turn nim_engine \<lparr>board = [], ai_pos = 0\<rparr> \<and>
   ''e9'' \<notin> set (legal_moves nim_engine \<lparr>board = [], ai_pos = 0\<rparr>) \<and>
   board_push_san nim_engine [] ''e9'' = Inl ''illegal san'' \<and>
   make_ai_move nim_engine ''e9'' \<lparr>board = [], ai_pos = 0\<rparr> =
     (Some (ValueError ''illegal san''), \<lparr>board = [], ai_pos = 0\<rparr>) \<and>
   make_user_move nim_engine ''e9'' \<lparr>board = [], ai_pos = 0\<rparr> =
     (Some (ValueError ''Not player's turn.''), \<lparr>board = [], ai_pos = 0\<rparr>) \<and>
   \<not> is_ai_turn nim_engine \<lparr>board = [1], ai_pos = 0\<rparr> \<and>
   ''e9'' \<notin> set (legal_moves nim_engine \<lparr>board = [1], ai_pos = 0\<rparr>) \<and>
   board_push_san nim_engine [1] ''e9'' = Inl ''illegal san'' \<and>
   make_user_move nim_engine ''e9'' \<lparr>board = [1], ai_pos = 0\<rparr> =
     (Some (ValueError ''illegal san''), \<lparr>board = [1], ai_pos = 0\<rparr>) \<and>
   make_ai_move nim_engine ''e9'' \<lparr>board = [1], ai_pos = 0\<rparr> =
     (Some (ValueError ''Not AI's turn.''), \<lparr>board = [1], ai_pos = 0\<rparr>)"
proof -
  have t0: "is_ai_turn nim_engine \<lparr>board = [], ai_pos = 0\<rparr>"
    and t1: "\<not> is_ai_turn nim_engine \<lparr>board = [1], ai_pos = 0\<rparr>"
    by (simp_all add: is_ai_turn_def nim_engine_def)
  have u0: "''e9'' \<notin> set (legal_moves nim_engine \<lparr>board = [], ai_pos = 0\<rparr>)"
    and u1: "''e9'' \<notin> set (legal_moves nim_engine \<lparr>board = [1], ai_pos = 0\<rparr>)"
    by (simp_all add: legal_moves_def nim_engine_def nim_legal_moves_def nim_san_def)
  have r0: "board_push_san nim_engine (board \<lparr>board = [], ai_pos = 0\<rparr>) ''e9'' = Inl ''illegal san''"
    and r1: "board_push_san nim_engine (board \<lparr>board = [1], ai_pos = 0\<rparr>) ''e9'' = Inl ''illegal san''"
    by (simp_all add: nim_engine_def nim_push_san_def)
  from illegal_move_rejected [of nim_engine "\<lparr>board = [], ai_pos = 0\<rparr>" "''e9''" "''illegal san''"]
    illegal_move_rejected [of nim_engine "\<lparr>board = [1], ai_pos = 0\<rparr>" "''e9''" "''illegal san''"]
    t0 t1 u0 u1 r0 r1
  show ?thesis by simp
qed

text \<open>
  C1 as first stated fails in two ways. For the side that is not to move: on a starting
  board, white to move, with the agent playing black (\<open>ai_pos = 1\<close>), \<open>make_ai_move\<close>
  called with the unlisted text \<open>e9\<close> raises the wrong-turn error, not the engine's
  rejection of the move. For the side to move: neither function tests the text against
  \<open>legal_moves()\<close>, so with an engine that accepts the null move the user's \<open>--\<close>,
  which is not in \<open>legal_moves()\<close>, is pushed without an error and changes the board.
\<close>

theorem illegal_move_counterexample:
  "''e9'' \<notin> set (legal_moves nim_engine \<lparr>board = [], ai_pos = 1\<rparr>) \<and>
   board_push_san nim_engine [] ''e9'' = Inl ''illegal san'' \<and>
   make_ai_move nim_engine ''e9'' \<lparr>board = [], ai_pos = 1\<rparr> =
     (Some (ValueError ''Not AI's turn.''), \<lparr>board = [], ai_pos = 1\<rparr>) \<and>
   ''--'' \<notin> set (legal_moves null_move_engine \<lparr>board = [], ai_pos = 1\<rparr>) \<and>
   \<not> is_ai_turn null_move_engine \<lparr>board = [], ai_pos = 1\<rparr> \<and>
   make_user_move null_move_engine ''--'' \<lparr>board = [], ai_pos = 1\<rparr> =
     (None, \<lparr>board = [0], ai_pos = 1\<rparr>)"
  by (simp add: legal_moves_def make_ai_move_def make_user_move_def is_ai_turn_def
      null_move_engine_def nim_engine_def nim_legal_moves_def nim_san_def nim_push_san_def)

text \<open>
  C2. For every state of the globals and every move text, legal or not: when it is not
  the agent's turn, \<open>make_ai_move\<close> raises \<open>ValueError("Not AI's turn.")\<close>, and when
  it is the agent's turn, \<open>make_user_move\<close> raises
  \<open>ValueError("Not player's turn.")\<close>; in both cases the globals stay as they were.
\<close>

theorem wrong_turn_rejected:
  "(\<not> is_ai_turn E g \<longrightarrow>
      make_ai_move E move g = (Some (ValueError ''Not AI's turn.''), g)) \<and>
   (is_ai_turn E g \<longrightarrow>
      make_user_move E move g = (Some (ValueError ''Not player's turn.''), g))"
  by (simp add: make_ai_move_def make_user_move_def)

text \<open>The move \<open>1\<close> is legal on the starting board, and is refused out of turn:\<close>

theorem wrong_turn_rejected_witness:
  "\<not> is_ai_turn nim_engine \<lparr>board = [], ai_pos = 1\<rparr> \<and>
   ''1'' \<in> set (legal_moves nim_engine \<lparr>board = [], ai_pos = 1\<rparr>) \<and>
   make_ai_move nim_engine ''1'' \<lparr>board = [], ai_pos = 1\<rparr> =
     (Some (ValueError ''Not AI's turn.''), \<lparr>board = [], ai_pos = 1\<rparr>) \<and>
   is_ai_turn nim_engine \<lparr>board = [], ai_pos = 0\<rparr> \<and>
   ''1'' \<in> set (legal_moves nim_engine \<lparr>board = [], ai_pos = 0\<rparr>) \<and>
   make_user_move nim_engine ''1'' \<lparr>board = [], ai_pos = 0\<rparr> =
     (Some (ValueError ''Not player's turn.''), \<lparr>board = [], ai_pos = 0\<rparr>)"
proof -
  have a: "\<not> is_ai_turn nim_engine \<lparr>board = [], ai_pos = 1\<rparr>"
    and b: "is_ai_turn nim_engine \<lparr>board = [], ai_pos = 0\<rparr>"
    by (simp_all add: is_ai_turn_def nim_engine_def)
  have c: "''1'' \<in> set (legal_moves nim_engine \<lparr>board = [], ai_pos = 1\<rparr>)"
    and d: "''1'' \<in> set (legal_moves nim_engine \<lparr>board = [], ai_pos = 0\<rparr>)"
    by (simp_all add: legal_moves_def nim_engine_def nim_legal_moves_def nim_san_def nim_pile_def)
  from a b c d
    wrong_turn_rejected [of nim_engine "\<lparr>board = [], ai_pos = 1\<rparr>" "''1''"]
    wrong_turn_rejected [of nim_engine "\<lparr>board = [], ai_pos = 0\<rparr>" "''1''"]
  show ?thesis by blast
qed

text \<open>
  C6. Given an engine in which a pushed move passes the turn to the other colour: after
  every successful \<open>make_ai_move\<close> or \<open>make_user_move\<close>, \<open>is_ai_turn()\<close> is the
  negation of its value before the call. This holds whatever \<open>get_end_state()\<close> then
  returns, so in particular when it returns \<open>None\<close>.
\<close>

theorem turn_alternates:
  assumes "push_flips E"
  shows "(make_ai_move E move g = (None, g') \<longrightarrow> is_ai_turn E g' = (\<not> is_ai_turn E g)) \<and>
         (make_user_move E move g = (None, g') \<longrightarrow> is_ai_turn E g' = (\<not> is_ai_turn E g))"
  using assms
  by (auto simp: push_flips_def make_ai_move_def make_user_move_def is_ai_turn_def
      split: if_splits sum.splits)

theorem turn_alternates_witness:
  "push_flips nim_engine \<and>
   make_ai_move nim_engine ''1'' \<lparr>board = [], ai_pos = 0\<rparr> = (None, \<lparr>board = [1], ai_pos = 0\<rparr>) \<and>
   is_ai_turn nim_engine \<lparr>board = [], ai_pos = 0\<rparr> \<and>
   \<not> is_ai_turn nim_engine \<lparr>board = [1], ai_pos = 0\<rparr> \<and>
   make_user_move nim_engine ''2'' \<lparr>board = [1], ai_pos = 0\<rparr> = (None, \<lparr>board = [1, 2], ai_pos = 0\<rparr>) \<and>
   is_ai_turn nim_engine \<lparr>board = [1, 2], ai_pos = 0\<rparr>"
proof -
  have a: "make_ai_move nim_engine ''1'' \<lparr>board = [], ai_pos = 0\<rparr> = (None, \<lparr>board = [1], ai_pos = 0\<rparr>)"
    by (simp add: make_ai_move_def is_ai_turn_def nim_defs)
  have t: "is_ai_turn nim_engine \<lparr>board = [], ai_pos = 0\<rparr>"
    by (simp add: is_ai_turn_def nim_defs)
  have u: "make_user_move nim_engine ''2'' \<lparr>board = [1], ai_pos = 0\<rparr> = (None, \<lparr>board = [1, 2], ai_pos = 0\<rparr>)"
    by (simp add: make_user_move_def is_ai_turn_def nim_defs)
  from turn_alternates [OF nim_push_flips, of "''1''" "\<lparr>board = [], ai_pos = 0\<rparr>" "\<lparr>board = [1], ai_pos = 0\<rparr>"]
    a t
  have 1: "\<not> is_ai_turn nim_engine \<lparr>board = [1], ai_pos = 0\<rparr>" by simp
  from turn_alternates [OF nim_push_flips, of "''2''" "\<lparr>board = [1], ai_pos = 0\<rparr>" "\<lparr>board = [1, 2], ai_pos = 0\<rparr>"]
    u 1
  have "is_ai_turn nim_engine \<lparr>board = [1, 2], ai_pos = 0\<rparr>" by simp
  with a t u 1 nim_push_flips show ?thesis by simp
qed

section \<open>The automated turn\<close>

lemma pushes_append: "pushes (xs @ ys) = pushes xs @ pushes ys"
  by (induction xs rule: pushes.induct) simp_all

lemma pushes_calls: "list_all is_call ev \<Longrightarrow> pushes ev = []"
  by (induction ev rule: pushes.induct) simp_all

lemma call_tool_cases:
  assumes "call_tool E c g = (g', ev)"
  shows "(g' = g \<and> ev = [Call (fst c) (snd c)]) \<or>
         (ev = [Call (fst c) (snd c), Pushed (board g')] \<and>
          ((fst c = Make_ai_move \<and> make_ai_move E (snd c) g = (None, g')) \<or>
           (fst c = Make_user_move \<and> make_user_move E (snd c) g = (None, g'))))"
proof (cases c)
  case (Pair t arg)
  with assms show ?thesis
    by (cases t)
       (auto simp: call_tool_def split: prod.splits option.splits
             dest: make_ai_move_cases make_user_move_cases)
qed

text \<open>An agent invocation that pushes nothing changes nothing.\<close>

lemma run_calls_no_push:
  "run_calls E tools cs g = (g', ev) \<Longrightarrow> pushes ev = [] \<Longrightarrow> g' = g \<and> list_all is_call ev"
proof (induction cs arbitrary: g g' ev)
  case Nil
  then show ?case by simp
next
  case (Cons c cs)
  show ?case
  proof (cases "fst c \<in> set tools")
    case False
    with Cons show ?thesis by simp
  next
    case True
    obtain g1 ev1 where c: "call_tool E c g = (g1, ev1)" by (cases "call_tool E c g")
    obtain g2 ev2 where r: "run_calls E tools cs g1 = (g2, ev2)" by (cases "run_calls E tools cs g1")
    from True c r Cons.prems have ev: "ev = ev1 @ ev2" and g': "g' = g2" by simp_all
    with Cons.prems have "pushes ev1 = []" and "pushes ev2 = []" by (simp_all add: pushes_append)
    with call_tool_cases [OF c] Cons.IH [OF r] show ?thesis
      by (auto simp: ev g')
  qed
qed

text \<open>Out of turn, and without \<open>make_user_move\<close> among the tools, no call pushes.\<close>

lemma run_calls_idle:
  "\<not> is_ai_turn E g \<Longrightarrow> Make_user_move \<notin> set tools \<Longrightarrow> run_calls E tools cs g = (g', ev) \<Longrightarrow>
   g' = g \<and> list_all is_call ev"
proof (induction cs arbitrary: g' ev)
  case Nil
  then show ?case by simp
next
  case (Cons c cs)
  show ?case
  proof (cases "fst c \<in> set tools")
    case False
    with Cons show ?thesis by simp
  next
    case True
    obtain g1 ev1 where c: "call_tool E c g = (g1, ev1)" by (cases "call_tool E c g")
    obtain g2 ev2 where r: "run_calls E tools cs g1 = (g2, ev2)" by (cases "run_calls E tools cs g1")
    from True c r Cons.prems have ev: "ev = ev1 @ ev2" and g': "g' = g2" by simp_all
    from call_tool_cases [OF c] Cons.prems(1,2) True
    have 1: "g1 = g \<and> ev1 = [Call (fst c) (snd c)]"
      by (auto dest: make_ai_move_cases make_user_move_cases)
    with Cons.IH [OF Cons.prems(1,2)] r show ?thesis
      by (simp add: ev g')
  qed
qed

text \<open>On the agent's turn at most one call pushes, and the turn has then passed.\<close>

lemma run_calls_one_push:
  "push_flips E \<Longrightarrow> Make_user_move \<notin> set tools \<Longrightarrow> is_ai_turn E g \<Longrightarrow>
   run_calls E tools cs g = (g', ev) \<Longrightarrow>
   (g' = g \<and> list_all is_call ev) \<or>
   (\<exists>c1 c2. ev = c1 @ Pushed (board g') # c2 \<and> list_all is_call c1 \<and> list_all is_call c2 \<and>
      \<not> is_ai_turn E g')"
proof (induction cs arbitrary: g' ev)
  case Nil
  then show ?case by simp
next
  case (Cons c cs)
  show ?case
  proof (cases "fst c \<in> set tools")
    case False
    with Cons show ?thesis by simp
  next
    case True
    obtain g1 ev1 where c: "call_tool E c g = (g1, ev1)" by (cases "call_tool E c g")
    obtain g2 ev2 where r: "run_calls E tools cs g1 = (g2, ev2)" by (cases "run_calls E tools cs g1")
    from True c r Cons.prems have ev: "ev = ev1 @ ev2" and g': "g' = g2" by simp_all
    from call_tool_cases [OF c] Cons.prems(2) True
    consider (query) "g1 = g" "ev1 = [Call (fst c) (snd c)]"
      | (push) "ev1 = [Call (fst c) (snd c), Pushed (board g1)]" "make_ai_move E (snd c) g = (None, g1)"
      by auto
    then show ?thesis
    proof cases
      case query
      from Cons.IH [OF Cons.prems(1,2,3)] r query
      consider "g2 = g" "list_all is_call ev2"
        | c1 c2 where "ev2 = c1 @ Pushed (board g2) # c2" "list_all is_call c1" "list_all is_call c2"
            "\<not> is_ai_turn E g2"
        by auto
      then show ?thesis
      proof cases
        case 1
        with query show ?thesis by (simp add: ev g')
      next
        case 2
        have "ev = (Call (fst c) (snd c) # c1) @ Pushed (board g') # c2"
          using 2 query by (simp add: ev g')
        moreover have "list_all is_call (Call (fst c) (snd c) # c1)"
          using 2 by simp
        ultimately show ?thesis using 2 g' by blast
      qed
    next
      case push
      from make_ai_move_cases [OF push(2)] Cons.prems(1)
      have idle: "\<not> is_ai_turn E g1"
        by (metis is_ai_turn_board_update option.distinct(1) push(2) make_ai_move_cases)
      from run_calls_idle [OF idle Cons.prems(2) r]
      have "g2 = g1" and "list_all is_call ev2" by simp_all
      then have "ev = [Call (fst c) (snd c)] @ Pushed (board g') # ev2"
        using push by (simp add: ev g')
      moreover have "list_all is_call [Call (fst c) (snd c)]" by simp
      ultimately show ?thesis
        using \<open>list_all is_call ev2\<close> idle \<open>g2 = g1\<close> g' by blast
    qed
  qed
qed

lemma run_calls_only_tools:
  "run_calls E tools cs g = (g', ev) \<Longrightarrow> list_all (only_tools tools) ev"
proof (induction cs arbitrary: g g' ev)
  case Nil
  then show ?case by simp
next
  case (Cons c cs)
  show ?case
  proof (cases "fst c \<in> set tools")
    case False
    with Cons show ?thesis by simp
  next
    case True
    obtain g1 ev1 where c: "call_tool E c g = (g1, ev1)" by (cases "call_tool E c g")
    obtain g2 ev2 where r: "run_calls E tools cs g1 = (g2, ev2)" by (cases "run_calls E tools cs g1")
    from True c r Cons.prems have ev: "ev = ev1 @ ev2" by simp
    from call_tool_cases [OF c] True have "list_all (only_tools tools) ev1" by auto
    with Cons.IH [OF r] show ?thesis by (simp add: ev)
  qed
qed

lemma failsafe_only_tools:
  "failsafe E g = (r, g', ev) \<Longrightarrow> Make_ai_move \<in> set tools \<Longrightarrow> list_all (only_tools tools) ev"
  by (auto simp: failsafe_def split: if_splits list.splits prod.splits option.splits)

lemma failsafe_fires:
  assumes "accepts_listed E" and "is_ai_turn E g" and "legal_moves E g = move # others"
  shows "\<exists>b. board_push_san E (board g) move = Inr b \<and>
           failsafe E g = (None, g\<lparr>board := b\<rparr>, [Call Make_ai_move move, Pushed b])"
proof -
  from assms(3) have "move \<in> set (map (board_san E (board g)) (board_legal_moves E (board g)))"
    by (simp add: legal_moves_def)
  with assms(1) obtain b where "board_push_san E (board g) move = Inr b"
    unfolding accepts_listed_def by blast
  with assms(2,3) show ?thesis
    by (simp add: failsafe_def make_ai_move_def)
qed

lemma failsafe_idle: "\<not> is_ai_turn E g \<Longrightarrow> failsafe E g = (None, g, [])"
  by (simp add: failsafe_def)

lemma failsafe_cases:
  "failsafe E g = (r, g', ev) \<Longrightarrow>
   (ev = [] \<and> g' = g) \<or> (\<exists>m. ev = [Call Make_ai_move m] \<and> r \<noteq> None) \<or>
   (\<exists>m. r = None \<and> ev = [Call Make_ai_move m, Pushed (board g')])"
  by (auto simp: failsafe_def split: if_splits list.splits prod.splits option.splits)

text \<open>
  C8, as amended. In every automated turn the agent is invoked once, with exactly the
  five tools \<open>get_move_history\<close>, \<open>legal_moves\<close>, \<open>possible_captures\<close>,
  \<open>possible_checks\<close> and \<open>make_ai_move\<close> and with five prediction rounds; during the
  turn no other function is called as a tool. \<open>is_ai_turn\<close> is not among the tools.
\<close>

theorem agent_tool_list:
  "\<exists>r g' ev.
     ai_turn E rounds g =
       (r, g', Act [Get_move_history, Legal_moves, Possible_captures, Possible_checks, Make_ai_move] 5 # ev) \<and>
     list_all (only_tools [Get_move_history, Legal_moves, Possible_captures, Possible_checks, Make_ai_move]) ev"
proof -
  let ?tools = "[Get_move_history, Legal_moves, Possible_captures, Possible_checks, Make_ai_move]"
  obtain g1 ev1 where r: "run_calls E ?tools (concat (take 5 rounds)) g = (g1, ev1)"
    by (cases "run_calls E ?tools (concat (take 5 rounds)) g")
  obtain r2 g2 ev2 where f: "failsafe E g1 = (r2, g2, ev2)" by (cases "failsafe E g1")
  have "ai_turn E rounds g = (r2, g2, Act ?tools 5 # ev1 @ ev2)"
    using r f by (simp add: ai_turn_def act_def)
  moreover have "list_all (only_tools ?tools) (ev1 @ ev2)"
    using run_calls_only_tools [OF r] failsafe_only_tools [OF f, of ?tools] by simp
  ultimately show ?thesis by blast
qed

theorem agent_tool_list_witness:
  "ai_turn nim_engine [[(Make_user_move, ''1'')]] \<lparr>board = [], ai_pos = 1\<rparr> =
     (None, \<lparr>board = [], ai_pos = 1\<rparr>,
      [Act [Get_move_history, Legal_moves, Possible_captures, Possible_checks, Make_ai_move] 5])"
  using agent_tool_list [of nim_engine "[[(Make_user_move, ''1'')]]" "\<lparr>board = [], ai_pos = 1\<rparr>"]
  by (simp add: ai_turn_def act_def failsafe_def is_ai_turn_def nim_defs)

text \<open>
  C8 as first stated fails: \<open>is_ai_turn\<close> is not in the list handed to the agent. An
  agent that asks for \<open>is_ai_turn\<close> and then for \<open>legal_moves\<close> on the starting
  board gets only the second call.
\<close>

theorem agent_tool_list_counterexample:
  "Is_ai_turn \<notin> set [Get_move_history, Legal_moves, Possible_captures, Possible_checks, Make_ai_move] \<and>
   ai_turn nim_engine [[(Is_ai_turn, ''''), (Legal_moves, '''')]] \<lparr>board = [], ai_pos = 0\<rparr> =
     (None, \<lparr>board = [1], ai_pos = 0\<rparr>,
      [Act [Get_move_history, Legal_moves, Possible_captures, Possible_checks, Make_ai_move] 5,
       Call Legal_moves '''', Call Make_ai_move ''1'', Pushed [1]])"
  by (simp add: ai_turn_def act_def call_tool_def failsafe_def make_ai_move_def is_ai_turn_def
      legal_moves_def nim_engine_def nim_legal_moves_def nim_san_def nim_push_san_def nim_pile_def)

text \<open>
  C3. Given an engine that accepts the notation of every legal move: in an automated
  turn (it is the agent's turn) in which \<open>model.act\<close> returns without a move pushed,
  and with at least one legal move on the board, the board is as it was before the
  invocation, and the turn pushes exactly one move: the first element of
  \<open>legal_moves()\<close> evaluated after \<open>model.act\<close> has returned.
\<close>

theorem failsafe_commits_first_legal_move:
  assumes "accepts_listed E" and "is_ai_turn E g"
    and "act E rounds [Get_move_history, Legal_moves, Possible_captures, Possible_checks, Make_ai_move] 5 g
           = (g1, ev1)"
    and "pushes ev1 = []"
    and "legal_moves E g1 = move # others"
  shows "g1 = g \<and>
         (\<exists>b. board_push_san E (board g1) move = Inr b \<and>
               ai_turn E rounds g = (None, g1\<lparr>board := b\<rparr>, ev1 @ [Call Make_ai_move move, Pushed b]) \<and>
               pushes (ev1 @ [Call Make_ai_move move, Pushed b]) = [b])"
proof -
  let ?tools = "[Get_move_history, Legal_moves, Possible_captures, Possible_checks, Make_ai_move]"
  obtain g' ev where r: "run_calls E ?tools (concat (take 5 rounds)) g = (g', ev)"
    by (cases "run_calls E ?tools (concat (take 5 rounds)) g")
  with assms(3) have g1: "g1 = g'" and ev1: "ev1 = Act ?tools 5 # ev"
    by (simp_all add: act_def)
  from assms(4) ev1 have "pushes ev = []" by simp
  from run_calls_no_push [OF r this] g1 have same: "g1 = g" by simp
  from failsafe_fires [OF assms(1) assms(2) assms(5) [unfolded same]]
  obtain b where b: "board_push_san E (board g) move = Inr b"
    and f: "failsafe E g = (None, g\<lparr>board := b\<rparr>, [Call Make_ai_move move, Pushed b])"
    by blast
  have "ai_turn E rounds g = (None, g1\<lparr>board := b\<rparr>, ev1 @ [Call Make_ai_move move, Pushed b])"
    using assms(3) f same by (simp add: ai_turn_def)
  with b same assms(4) show ?thesis by (simp add: pushes_append)
qed

theorem failsafe_commits_first_legal_move_witness:
  "accepts_listed nim_engine \<and> is_ai_turn nim_engine \<lparr>board = [], ai_pos = 0\<rparr> \<and>
   act nim_engine [[(Legal_moves, '''')]]
     [Get_move_history, Legal_moves, Possible_captures, Possible_checks, Make_ai_move] 5
     \<lparr>board = [], ai_pos = 0\<rparr> =
     (\<lparr>board = [], ai_pos = 0\<rparr>,
      [Act [Get_move_history, Legal_moves, Possible_captures, Possible_checks, Make_ai_move] 5,
       Call Legal_moves '''']) \<and>
   legal_moves nim_engine \<lparr>board = [], ai_pos = 0\<rparr> = [''1'', ''2''] \<and>
   ai_turn nim_engine [[(Legal_moves, '''')]] \<lparr>board = [], ai_pos = 0\<rparr> =
     (None, \<lparr>board = [1], ai_pos = 0\<rparr>,
      [Act [Get_move_history, Legal_moves, Possible_captures, Possible_checks, Make_ai_move] 5,
       Call Legal_moves '''', Call Make_ai_move ''1'', Pushed [1]])"
proof -
  let ?tools = "[Get_move_history, Legal_moves, Possible_captures, Possible_checks, Make_ai_move]"
  let ?g = "\<lparr>board = [], ai_pos = 0\<rparr> :: nim game"
  have t: "is_ai_turn nim_engine ?g"
    by (simp add: is_ai_turn_def nim_defs)
  have a: "act nim_engine [[(Legal_moves, '''')]] ?tools 5 ?g = (?g, [Act ?tools 5, Call Legal_moves ''''])"
    by (simp add: act_def call_tool_def)
  have p: "pushes [Act ?tools 5, Call Legal_moves '''' :: nim event] = []"
    by simp
  have l: "legal_moves nim_engine ?g = ''1'' # [''2'']"
    by (simp add: legal_moves_def nim_defs)
  have b: "board_push_san nim_engine [] ''1'' = Inr [1]"
    by (simp add: nim_defs)
  from failsafe_commits_first_legal_move [OF nim_accepts_listed t a p l] b
  have "ai_turn nim_engine [[(Legal_moves, '''')]] ?g =
     (None, \<lparr>board = [1], ai_pos = 0\<rparr>,
      [Act ?tools 5, Call Legal_moves '''', Call Make_ai_move ''1'', Pushed [1]])"
    by simp
  with nim_accepts_listed t a l show ?thesis by simp
qed

text \<open>
  C9. Given an engine in which a pushed move passes the turn and which accepts the
  notation of every legal move: an automated turn that starts on the agent's turn with
  a legal move available pushes exactly one move and ends with the turn passed; after a
  successful \<open>make_ai_move\<close> every further \<open>make_ai_move\<close> raises
  \<open>ValueError("Not AI's turn.")\<close> and leaves the globals as they were; when the
  agent has pushed a move, the failsafe does nothing; and after a successful
  \<open>make_ai_move\<close> no sequence of further tool calls changes the globals.
\<close>

theorem one_ai_ply_per_turn:
  assumes "push_flips E" and "accepts_listed E" and "is_ai_turn E g" and "legal_moves E g \<noteq> []"
  shows "(\<exists>g' ev. ai_turn E rounds g = (None, g', ev) \<and> pushes ev = [board g'] \<and> \<not> is_ai_turn E g') \<and>
         (make_ai_move E move g = (None, g1) \<longrightarrow>
            make_ai_move E move' g1 = (Some (ValueError ''Not AI's turn.''), g1)) \<and>
         (act E rounds [Get_move_history, Legal_moves, Possible_captures, Possible_checks, Make_ai_move] 5 g
            = (g2, ev2) \<longrightarrow> pushes ev2 \<noteq> [] \<longrightarrow> failsafe E g2 = (None, g2, [])) \<and>
         (make_ai_move E move g = (None, g1) \<longrightarrow>
          run_calls E [Get_move_history, Legal_moves, Possible_captures, Possible_checks, Make_ai_move] cs g1
            = (g3, ev3) \<longrightarrow> g3 = g1 \<and> pushes ev3 = [])"
proof -
  let ?tools = "[Get_move_history, Legal_moves, Possible_captures, Possible_checks, Make_ai_move]"
  obtain ga ev where r: "run_calls E ?tools (concat (take 5 rounds)) g = (ga, ev)"
    by (cases "run_calls E ?tools (concat (take 5 rounds)) g")
  then have a: "act E rounds ?tools 5 g = (ga, Act ?tools 5 # ev)"
    by (simp add: act_def)
  have nu: "Make_user_move \<notin> set ?tools" by simp
  from run_calls_one_push [OF assms(1) nu assms(3) r]
  consider (none) "ga = g" "list_all is_call ev"
    | (one) c1 c2 where "ev = c1 @ Pushed (board ga) # c2" "list_all is_call c1" "list_all is_call c2"
        "\<not> is_ai_turn E ga"
    by blast
  then have both: "(\<exists>g' ev. ai_turn E rounds g = (None, g', ev) \<and> pushes ev = [board g'] \<and> \<not> is_ai_turn E g') \<and>
      (pushes ev \<noteq> [] \<longrightarrow> failsafe E ga = (None, ga, []))"
  proof cases
    case none
    from assms(4) obtain m ms where lm: "legal_moves E g = m # ms" by (cases "legal_moves E g") auto
    from failsafe_fires [OF assms(2,3) lm]
    obtain b where b: "board_push_san E (board g) m = Inr b"
      and f: "failsafe E g = (None, g\<lparr>board := b\<rparr>, [Call Make_ai_move m, Pushed b])"
      by blast
    have "ai_turn E rounds g = (None, g\<lparr>board := b\<rparr>, (Act ?tools 5 # ev) @ [Call Make_ai_move m, Pushed b])"
      using a f none by (simp add: ai_turn_def)
    moreover have "pushes ((Act ?tools 5 # ev) @ [Call Make_ai_move m, Pushed b]) = [board (g\<lparr>board := b\<rparr>)]"
      using none by (simp add: pushes_append pushes_calls)
    moreover have "\<not> is_ai_turn E (g\<lparr>board := b\<rparr>)"
      using is_ai_turn_board_update [OF assms(1) b] assms(3) by simp
    ultimately have "\<exists>g' ev. ai_turn E rounds g = (None, g', ev) \<and> pushes ev = [board g'] \<and> \<not> is_ai_turn E g'"
      by blast
    moreover have "pushes ev = []"
      using none by (simp add: pushes_calls)
    ultimately show ?thesis by simp
  next
    case one
    have f: "failsafe E ga = (None, ga, [])"
      using one by (simp add: failsafe_idle)
    then have "ai_turn E rounds g = (None, ga, Act ?tools 5 # ev)"
      using a by (simp add: ai_turn_def)
    moreover have "pushes (Act ?tools 5 # ev) = [board ga]"
      using one by (simp add: pushes_append pushes_calls)
    ultimately have "\<exists>g' ev. ai_turn E rounds g = (None, g', ev) \<and> pushes ev = [board g'] \<and> \<not> is_ai_turn E g'"
      using one by blast
    with f show ?thesis by simp
  qed
  then have turn: "\<exists>g' ev. ai_turn E rounds g = (None, g', ev) \<and> pushes ev = [board g'] \<and> \<not> is_ai_turn E g'"
    and guard: "pushes ev \<noteq> [] \<longrightarrow> failsafe E ga = (None, ga, [])"
    by simp_all
  have second: "make_ai_move E move g = (None, g1) \<longrightarrow>
      make_ai_move E move' g1 = (Some (ValueError ''Not AI's turn.''), g1)"
  proof
    assume m: "make_ai_move E move g = (None, g1)"
    from make_ai_move_cases [OF m] obtain b where "board_push_san E (board g) move = Inr b"
      and "g1 = g\<lparr>board := b\<rparr>" by auto
    with is_ai_turn_board_update [OF assms(1), of g move b] assms(3)
    have "\<not> is_ai_turn E g1" by simp
    then show "make_ai_move E move' g1 = (Some (ValueError ''Not AI's turn.''), g1)"
      by (simp add: make_ai_move_def)
  qed
  have later: "make_ai_move E move g = (None, g1) \<longrightarrow>
      run_calls E ?tools cs g1 = (g3, ev3) \<longrightarrow> g3 = g1 \<and> pushes ev3 = []"
  proof (intro impI)
    assume m: "make_ai_move E move g = (None, g1)" and rc: "run_calls E ?tools cs g1 = (g3, ev3)"
    from make_ai_move_cases [OF m] obtain b where "board_push_san E (board g) move = Inr b"
      and "g1 = g\<lparr>board := b\<rparr>" by auto
    with is_ai_turn_board_update [OF assms(1), of g move b] assms(3)
    have "\<not> is_ai_turn E g1" by simp
    from run_calls_idle [OF this nu rc] show "g3 = g1 \<and> pushes ev3 = []"
      by (simp add: pushes_calls)
  qed
  have "act E rounds ?tools 5 g = (g2, ev2) \<longrightarrow> pushes ev2 \<noteq> [] \<longrightarrow> failsafe E g2 = (None, g2, [])"
    using a guard by auto
  with turn second later show ?thesis by blast
qed

theorem one_ai_ply_per_turn_witness:
  "push_flips nim_engine \<and> accepts_listed nim_engine \<and>
   is_ai_turn nim_engine \<lparr>board = [], ai_pos = 0\<rparr> \<and>
   legal_moves nim_engine \<lparr>board = [], ai_pos = 0\<rparr> \<noteq> [] \<and>
   ai_turn nim_engine [[(Make_ai_move, ''2''), (Make_ai_move, ''1'')]] \<lparr>board = [], ai_pos = 0\<rparr> =
     (None, \<lparr>board = [2], ai_pos = 0\<rparr>,
      [Act [Get_move_history, Legal_moves, Possible_captures, Possible_checks, Make_ai_move] 5,
       Call Make_ai_move ''2'', Pushed [2], Call Make_ai_move ''1'']) \<and>
   make_ai_move nim_engine ''2'' \<lparr>board = [], ai_pos = 0\<rparr> = (None, \<lparr>board = [2], ai_pos = 0\<rparr>) \<and>
   make_ai_move nim_engine ''1'' \<lparr>board = [2], ai_pos = 0\<rparr> =
     (Some (ValueError ''Not AI's turn.''), \<lparr>board = [2], ai_pos = 0\<rparr>) \<and>
   failsafe nim_engine \<lparr>board = [2], ai_pos = 0\<rparr> = (None, \<lparr>board = [2], ai_pos = 0\<rparr>, [])"
proof -
  let ?tools = "[Get_move_history, Legal_moves, Possible_captures, Possible_checks, Make_ai_move]"
  let ?g = "\<lparr>board = [], ai_pos = 0\<rparr> :: nim game"
  let ?g1 = "\<lparr>board = [2], ai_pos = 0\<rparr> :: nim game"
  let ?rounds = "[[(Make_ai_move, ''2''), (Make_ai_move, ''1'')]]"
  let ?ev = "[Act ?tools 5, Call Make_ai_move ''2'', Pushed [2], Call Make_ai_move ''1''] :: nim event list"
  have t: "is_ai_turn nim_engine ?g"
    by (simp add: is_ai_turn_def nim_defs)
  have l: "legal_moves nim_engine ?g \<noteq> []"
    by (simp add: legal_moves_def nim_defs)
  have m: "make_ai_move nim_engine ''2'' ?g = (None, ?g1)"
    by (simp add: make_ai_move_def is_ai_turn_def nim_defs)
  have a: "act nim_engine ?rounds ?tools 5 ?g = (?g1, ?ev)"
    by (simp add: act_def call_tool_def make_ai_move_def is_ai_turn_def nim_defs)
  have p: "pushes ?ev \<noteq> []" by simp
  note inst = one_ai_ply_per_turn [OF nim_push_flips nim_accepts_listed t l, of ?rounds "''2''" ?g1 "''1''" ?g1 ?ev]
  from inst m have second: "make_ai_move nim_engine ''1'' ?g1 = (Some (ValueError ''Not AI's turn.''), ?g1)"
    by blast
  from inst a p have f: "failsafe nim_engine ?g1 = (None, ?g1, [])"
    by blast
  from a f have "ai_turn nim_engine ?rounds ?g = (None, ?g1, ?ev)"
    by (simp add: ai_turn_def)
  with nim_push_flips nim_accepts_listed t l m second f show ?thesis by simp
qed

section \<open>The session loop\<close>

subsection \<open>The user's \<open>help\<close>\<close>

text \<open>
  C7. When the line entered at the prompt lowers to \<open>help\<close>, the loop prints
  \<open>legal_moves()\<close> of the current globals, calls neither move function, and goes on
  with the same globals and the remaining lines, the next event being the next prompt.
\<close>

theorem help_lists_legal_moves:
  assumes "lower s = ''help''"
  shows "\<exists>r g' ev rest'.
           user_loop E p g rest = (r, g', Prompt p # ev, rest') \<and>
           user_loop E p g (s # rest) =
             (r, g', [Prompt p, Entered s, Print_moves (legal_moves E g), Prompt p] @ ev, rest')"
proof -
  have "\<exists>r g' ev rest'. user_loop E p g rest = (r, g', Prompt p # ev, rest')"
    by (cases rest) (auto split: prod.splits option.splits error.splits)
  moreover have "lower s \<noteq> ''quit''"
    using assms by simp
  ultimately show ?thesis
    using assms by auto
qed

theorem help_lists_legal_moves_witness:
  "lower ''HELP'' = ''help'' \<and>
   user_loop nim_engine prompt_white \<lparr>board = [], ai_pos = 1\<rparr> [''HELP'', ''quit''] =
     (Quit, \<lparr>board = [], ai_pos = 1\<rparr>,
      [Prompt prompt_white, Entered ''HELP'', Print_moves [''1'', ''2''],
       Prompt prompt_white, Entered ''quit'', Print ''Game ended by user.''], [])"
proof -
  have h: "lower ''HELP'' = ''help''"
    by (simp add: lower_def lower_char_def)
  have q: "user_loop nim_engine prompt_white \<lparr>board = [], ai_pos = 1\<rparr> [''quit''] =
     (Quit, \<lparr>board = [], ai_pos = 1\<rparr>,
      [Prompt prompt_white, Entered ''quit'', Print ''Game ended by user.''], [])"
    by (simp add: lower_def lower_char_def)
  have l: "legal_moves nim_engine \<lparr>board = [], ai_pos = 1\<rparr> = [''1'', ''2'']"
    by (simp add: legal_moves_def nim_defs)
  from help_lists_legal_moves [OF h, of nim_engine prompt_white "\<lparr>board = [], ai_pos = 1\<rparr>" "[''quit'']"]
    q l h
  show ?thesis by simp
qed

subsection \<open>Events that end the session\<close>

lemma marks_append:
  "marks M (xs @ ys) = map (\<lambda>(e, t). (e, t @ ys)) (marks M xs) @ marks M ys"
  by (induction xs) simp_all

lemma marks_mid: "M e \<Longrightarrow> (e, post) \<in> set (marks M (pre @ e # post))"
  by (induction pre) simp_all

lemma marks_calls_quit: "list_all (only_tools tools) ev \<Longrightarrow> marks is_quit ev = []"
  by (induction ev rule: pushes.induct) simp_all

lemma marks_calls_push: "list_all is_call ev \<Longrightarrow> marks is_push ev = []"
  by (induction ev rule: pushes.induct) simp_all

lemma marks_append_cases:
  assumes "(e, post) \<in> set (marks M (xs @ ys))"
  obtains t where "(e, t) \<in> set (marks M xs)" and "post = t @ ys"
    | "(e, post) \<in> set (marks M ys)"
  using assms by (auto simp: marks_append)

lemma end_check_cases:
  "end_check E g move = (r, ev) \<Longrightarrow>
   (r = None \<and> get_end_state E g = None \<and>
    ev = [Board_after_move (move + 1), Display (ai_pos g = 1) (board g)]) \<or>
   (\<exists>msg. r = Some (Game_over msg) \<and> get_end_state E g = Some msg \<and>
      ev = [Board_after_move (move + 1), Display (ai_pos g = 1) (board g), Print msg])"
  by (auto simp: end_check_def update_board_def split: option.splits)

lemma end_check_marks_quit: "end_check E g move = (r, ev) \<Longrightarrow> marks is_quit ev = []"
  by (auto dest!: end_check_cases)

lemma end_check_marks_push: "end_check E g move = (r, ev) \<Longrightarrow> marks is_push ev = []"
  by (auto dest!: end_check_cases)

lemma get_end_state_board:
  "board h = b \<Longrightarrow> get_end_state E (g\<lparr>board := b\<rparr>) = get_end_state E h"
  by (auto simp: get_end_state_def)

lemma end_check_ply:
  assumes "end_check E g move = (r, ev)" and "list_all is_call calls"
  shows "case r of Some out \<Rightarrow> ply_tail E (Pushed (board g)) out g (calls @ ev)
         | None \<Rightarrow> (\<forall>out gf later. ply_tail E (Pushed (board g)) out gf ((calls @ ev) @ later))"
proof -
  from end_check_cases [OF assms(1)] show ?thesis
  proof (elim disjE conjE exE)
    assume r: "r = None" and n: "get_end_state E g = None"
      and ev: "ev = [Board_after_move (move + 1), Display (ai_pos g = 1) (board g)]"
    have "ply_tail E (Pushed (board g)) out gf ((calls @ ev) @ later)" for out gf later
      unfolding ply_tail_def
    proof (intro exI conjI)
      show "Pushed (board g) = Pushed (board g)" ..
      show "list_all is_call calls" by fact
      show "(calls @ ev) @ later =
          calls @ Board_after_move (move + 1) # Display (ai_pos g = 1) (board g) # later"
        by (simp add: ev)
      show "\<forall>msg. get_end_state E (gf\<lparr>board := board g\<rparr>) = Some msg \<longrightarrow>
          out = Game_over msg \<and> board gf = board g \<and> later = [Print msg]"
        using n by (simp add: get_end_state_board [of g])
    qed
    with r show ?thesis by simp
  next
    fix msg
    assume r: "r = Some (Game_over msg)" and n: "get_end_state E g = Some msg"
      and ev: "ev = [Board_after_move (move + 1), Display (ai_pos g = 1) (board g), Print msg]"
    have "ply_tail E (Pushed (board g)) (Game_over msg) g (calls @ ev)"
      unfolding ply_tail_def
    proof (intro exI conjI)
      show "Pushed (board g) = Pushed (board g)" ..
      show "list_all is_call calls" by fact
      show "calls @ ev =
          calls @ Board_after_move (move + 1) # Display (ai_pos g = 1) (board g) # [Print msg]"
        by (simp add: ev)
      show "\<forall>m. get_end_state E (g\<lparr>board := board g\<rparr>) = Some m \<longrightarrow>
          Game_over msg = Game_over m \<and> board g = board g \<and> [Print msg] = [Print m]"
        using n by simp
    qed
    with r show ?thesis by simp
  qed
qed

lemma phases_keep_ai:
  "phases_keep E M R \<Longrightarrow> ai_phase E rounds g move = (res, g', ev) \<Longrightarrow>
   (e, post) \<in> set (marks M ev) \<Longrightarrow>
   (case res of Some out \<Rightarrow> R e out g' post | None \<Rightarrow> (\<forall>out gf later. R e out gf (post @ later)))"
  unfolding phases_keep_def by blast

lemma phases_keep_user:
  "phases_keep E M R \<Longrightarrow> user_phase E p g move inputs = (res, g', ev, rest) \<Longrightarrow>
   (e, post) \<in> set (marks M ev) \<Longrightarrow>
   (case res of Some out \<Rightarrow> R e out g' post | None \<Rightarrow> (\<forall>out gf later. R e out gf (post @ later)))"
  unfolding phases_keep_def by blast

text \<open>
  What holds of the events after an event of the kind \<open>M\<close> in each half of the loop
  body holds of them in the whole loop.
\<close>

lemma main_loop_keeps:
  "main_loop E agent g move inputs = (out, g', ev) \<Longrightarrow> (e, post) \<in> set (marks M ev) \<Longrightarrow>
   phases_keep E M R \<Longrightarrow> R e out g' post"
proof (induction E agent g move inputs arbitrary: out g' ev rule: main_loop.induct)
  case (1 E agent g move inputs)
  note run = "1.prems"(1) and mark = "1.prems"(2) and keep = "1.prems"(3)
  show ?case
  proof (cases "ai_pos g = 0")
    case True
    obtain r1 g1 ev1 where p1: "ai_phase E (agent move) g move = (r1, g1, ev1)"
      by (cases "ai_phase E (agent move) g move") auto
    show ?thesis
    proof (cases r1)
      case (Some o1)
      with True p1 run have "out = o1" "g' = g1" "ev = ev1"
        by (simp_all add: main_loop.simps [of E agent g move inputs])
      with phases_keep_ai [OF keep p1, of e post] mark Some show ?thesis by simp
    next
      case None
      note n1 = None
      obtain r2 g2 ev2 rest where p2: "user_phase E prompt_black g1 (move + 1) inputs = (r2, g2, ev2, rest)"
        by (cases "user_phase E prompt_black g1 (move + 1) inputs") auto
      show ?thesis
      proof (cases r2)
        case (Some o2)
        with True p1 n1 p2 run have eq: "out = o2" "g' = g2" "ev = ev1 @ ev2"
          by (simp_all add: main_loop.simps [of E agent g move inputs])
        from mark [unfolded eq(3)] show ?thesis
        proof (cases rule: marks_append_cases)
          case (1 t)
          with phases_keep_ai [OF keep p1, of e t] n1 show ?thesis by simp
        next
          case 2
          with phases_keep_user [OF keep p2, of e post] Some eq show ?thesis by simp
        qed
      next
        case None
        obtain o3 g3 ev3 where p3: "main_loop E agent g2 (move + 2) rest = (o3, g3, ev3)"
          by (cases "main_loop E agent g2 (move + 2) rest") auto
        with True p1 n1 p2 None run have eq: "out = o3" "g' = g3" "ev = ev1 @ ev2 @ ev3"
          by (simp_all add: main_loop.simps [of E agent g move inputs])
        from mark [unfolded eq(3)] show ?thesis
        proof (cases rule: marks_append_cases)
          case (1 t)
          with phases_keep_ai [OF keep p1, of e t] n1 show ?thesis by simp
        next
          case 2
          then show ?thesis
          proof (cases rule: marks_append_cases)
            case (1 t)
            with phases_keep_user [OF keep p2, of e t] None show ?thesis by simp
          next
            case 2
            have "R e o3 g3 post"
              by (rule "1.IH"(1) [of None "(g1, ev1)" g1 ev1 None "(g2, ev2, rest)" g2 "(ev2, rest)" ev2 rest])
                 (use True p1 n1 p2 None p3 2 keep in simp_all)
            with eq show ?thesis by simp
          qed
        qed
      qed
    qed
  next
    case False
    obtain r1 g1 ev1 rest where p1: "user_phase E prompt_white g move inputs = (r1, g1, ev1, rest)"
      by (cases "user_phase E prompt_white g move inputs") auto
    show ?thesis
    proof (cases r1)
      case (Some o1)
      with False p1 run have "out = o1" "g' = g1" "ev = ev1"
        by (simp_all add: main_loop.simps [of E agent g move inputs])
      with phases_keep_user [OF keep p1, of e post] mark Some show ?thesis by simp
    next
      case None
      note n1 = None
      obtain r2 g2 ev2 where p2: "ai_phase E (agent (move + 1)) g1 (move + 1) = (r2, g2, ev2)"
        by (cases "ai_phase E (agent (move + 1)) g1 (move + 1)") auto
      show ?thesis
      proof (cases r2)
        case (Some o2)
        with False p1 n1 p2 run have eq: "out = o2" "g' = g2" "ev = ev1 @ ev2"
          by (simp_all add: main_loop.simps [of E agent g move inputs])
        from mark [unfolded eq(3)] show ?thesis
        proof (cases rule: marks_append_cases)
          case (1 t)
          with phases_keep_user [OF keep p1, of e t] n1 show ?thesis by simp
        next
          case 2
          with phases_keep_ai [OF keep p2, of e post] Some eq show ?thesis by simp
        qed
      next
        case None
        obtain o3 g3 ev3 where p3: "main_loop E agent g2 (move + 2) rest = (o3, g3, ev3)"
          by (cases "main_loop E agent g2 (move + 2) rest") auto
        with False p1 n1 p2 None run have eq: "out = o3" "g' = g3" "ev = ev1 @ ev2 @ ev3"
          by (simp_all add: main_loop.simps [of E agent g move inputs])
        from mark [unfolded eq(3)] show ?thesis
        proof (cases rule: marks_append_cases)
          case (1 t)
          with phases_keep_user [OF keep p1, of e t] n1 show ?thesis by simp
        next
          case 2
          then show ?thesis
          proof (cases rule: marks_append_cases)
            case (1 t)
            with phases_keep_ai [OF keep p2, of e t] None show ?thesis by simp
          next
            case 2
            have "R e o3 g3 post"
              by (rule "1.IH"(2) [of None "(g1, ev1, rest)" g1 "(ev1, rest)" ev1 rest None "(g2, ev2)" g2 ev2])
                 (use False p1 n1 p2 None p3 2 keep in simp_all)
            with eq show ?thesis by simp
          qed
        qed
      qed
    qed
  qed
qed

lemma play_cases:
  assumes "play E coin agent inputs = (out, g', ev)"
  obtains ev0 where "main_loop E agent \<lparr>board = board_reset E, ai_pos = coin\<rparr> 0 inputs = (out, g', ev0)"
    and "ev = Display (coin = 1) (board_reset E) # ev0"
proof -
  obtain o1 g1 ev1 where m: "main_loop E agent \<lparr>board = board_reset E, ai_pos = coin\<rparr> 0 inputs = (o1, g1, ev1)"
    by (cases "main_loop E agent \<lparr>board = board_reset E, ai_pos = coin\<rparr> 0 inputs") auto
  with assms have "o1 = out" "g1 = g'" "ev = Display (coin = 1) (board_reset E) # ev1"
    by (simp_all add: play_def)
  with m that show ?thesis by simp
qed

subsection \<open>The user's \<open>quit\<close>\<close>

lemma user_loop_quit:
  "user_loop E p g inputs = (r, g', ev, rest) \<Longrightarrow> (e, post) \<in> set (marks is_quit ev) \<Longrightarrow>
   r = Quit \<and> post = [Print ''Game ended by user.'']"
proof (induction inputs arbitrary: g r g' ev rest)
  case Nil
  then show ?case by auto
next
  case (Cons s inputs)
  show ?case
  proof (cases "lower s = ''quit''")
    case True
    with Cons.prems show ?thesis by auto
  next
    case nq: False
    show ?thesis
    proof (cases "lower s = ''help''")
      case True
      obtain r1 g1 ev1 rest1 where u: "user_loop E p g inputs = (r1, g1, ev1, rest1)"
        by (cases "user_loop E p g inputs") auto
      with Cons.prems nq True have "(e, post) \<in> set (marks is_quit ev1)" and "r = r1"
        by auto
      with Cons.IH [OF u] show ?thesis by simp
    next
      case nh: False
      obtain x gm where m: "make_user_move E s g = (x, gm)" by (cases "make_user_move E s g")
      show ?thesis
      proof (cases x)
        case None
        with Cons.prems nq nh m show ?thesis by auto
      next
        case (Some err)
        show ?thesis
        proof (cases err)
          case (ValueError msg)
          obtain r1 g1 ev1 rest1 where u: "user_loop E p gm inputs = (r1, g1, ev1, rest1)"
            by (cases "user_loop E p gm inputs") auto
          with Cons.prems nq nh m Some ValueError
          have "(e, post) \<in> set (marks is_quit ev1)" and "r = r1"
            by auto
          with Cons.IH [OF u] show ?thesis by simp
        next
          case IndexError
          with Cons.prems nq nh m Some show ?thesis by auto
        qed
      qed
    qed
  qed
qed

lemma user_phase_quit:
  assumes "user_phase E p g move inputs = (res, g', ev, rest)"
    and "(e, post) \<in> set (marks is_quit ev)"
  shows "res = Some User_quit \<and> post = [Print ''Game ended by user.'']"
proof -
  obtain r gl evl restl where u: "user_loop E p g inputs = (r, gl, evl, restl)"
    by (cases "user_loop E p g inputs") auto
  show ?thesis
  proof (cases "r = Moved")
    case True
    obtain rc evc where c: "end_check E gl move = (rc, evc)" by (cases "end_check E gl move")
    with u True assms(1) have ev: "ev = evl @ evc" by (simp add: user_phase_def)
    with assms(2) end_check_marks_quit [OF c]
    obtain t where "(e, t) \<in> set (marks is_quit evl)"
      by (auto simp: marks_append)
    from user_loop_quit [OF u this] True show ?thesis by simp
  next
    case False
    with u assms(1) have "ev = evl" and "r = Quit \<longrightarrow> res = Some User_quit"
      by (cases r; simp add: user_phase_def)+
    with user_loop_quit [OF u, of e post] assms(2) show ?thesis by simp
  qed
qed

lemma ai_turn_quit:
  assumes "ai_turn E rounds g = (r, g1, ev1)"
  shows "marks is_quit ev1 = []"
proof -
  let ?tools = "[Get_move_history, Legal_moves, Possible_captures, Possible_checks, Make_ai_move]"
  obtain ga eva where rc: "run_calls E ?tools (concat (take 5 rounds)) g = (ga, eva)"
    by (cases "run_calls E ?tools (concat (take 5 rounds)) g")
  obtain rf gf evf where f: "failsafe E ga = (rf, gf, evf)" by (cases "failsafe E ga") auto
  from rc f assms have "ev1 = Act ?tools 5 # eva @ evf"
    by (simp add: ai_turn_def act_def)
  moreover have "list_all (only_tools ?tools) (eva @ evf)"
    using run_calls_only_tools [OF rc] failsafe_only_tools [OF f, of ?tools] by simp
  ultimately show ?thesis by (simp add: marks_calls_quit)
qed

lemma ai_phase_quit:
  assumes "ai_phase E rounds g move = (res, g', ev)"
  shows "marks is_quit ev = []"
proof -
  obtain r g1 ev1 where t: "ai_turn E rounds g = (r, g1, ev1)" by (cases "ai_turn E rounds g") auto
  from ai_turn_quit [OF t] have 1: "marks is_quit ev1 = []" .
  show ?thesis
  proof (cases r)
    case (Some err)
    with t assms 1 show ?thesis by (simp add: ai_phase_def)
  next
    case None
    obtain rc evc where c: "end_check E g1 move = (rc, evc)" by (cases "end_check E g1 move")
    with t None assms have "ev = ev1 @ evc" by (simp add: ai_phase_def)
    with 1 end_check_marks_quit [OF c] show ?thesis by (simp add: marks_append)
  qed
qed

lemma phases_keep_quit:
  "phases_keep E is_quit (\<lambda>e out g post. out = User_quit \<and> post = [Print ''Game ended by user.''])"
  unfolding phases_keep_def
proof (intro conjI allI impI)
  fix rounds g move res g' ev e post
  assume "ai_phase E rounds g move = (res, g', ev)" and "(e, post) \<in> set (marks is_quit ev)"
  with ai_phase_quit [of E rounds g move res g' ev]
  show "case res of Some out \<Rightarrow> out = User_quit \<and> post = [Print ''Game ended by user.'']
        | None \<Rightarrow> (\<forall>out gf later. out = User_quit \<and> post @ later = [Print ''Game ended by user.''])"
    by simp
next
  fix p g move inputs res g' ev rest e post
  assume "user_phase E p g move inputs = (res, g', ev, rest)" and "(e, post) \<in> set (marks is_quit ev)"
  from user_phase_quit [OF this]
  show "case res of Some out \<Rightarrow> out = User_quit \<and> post = [Print ''Game ended by user.'']
        | None \<Rightarrow> (\<forall>out gf later. out = User_quit \<and> post @ later = [Print ''Game ended by user.''])"
    by simp
qed

text \<open>
  C4. In every session, whenever a line that lowers to \<open>quit\<close> is entered at the
  prompt, the session ends with the outcome \<open>User_quit\<close>, and the only event after
  the line is the print of \<open>Game ended by user.\<close>: no move function is called and the
  agent is not invoked again.
\<close>

theorem quit_ends_session:
  assumes "play E coin agent inputs = (out, g', ev)"
    and "ev = pre @ Entered s # post" and "lower s = ''quit''"
  shows "out = User_quit \<and> post = [Print ''Game ended by user.'']"
proof -
  from assms(1) obtain ev0
    where run: "main_loop E agent \<lparr>board = board_reset E, ai_pos = coin\<rparr> 0 inputs = (out, g', ev0)"
    and ev: "ev = Display (coin = 1) (board_reset E) # ev0"
    by (rule play_cases)
  have "(Entered s, post) \<in> set (marks is_quit ev)"
    unfolding assms(2) using assms(3) by (simp add: marks_mid)
  then have m: "(Entered s, post) \<in> set (marks is_quit ev0)"
    by (simp add: ev)
  from main_loop_keeps [OF run m phases_keep_quit] show ?thesis .
qed

theorem quit_ends_session_witness:
  "lower ''QUIT'' = ''quit'' \<and>
   play nim_engine 1 (\<lambda>move. []) [''help'', ''QUIT'', ''1''] =
     (User_quit, \<lparr>board = [], ai_pos = 1\<rparr>,
      [Display True [], Prompt prompt_white, Entered ''help'', Print_moves [''1'', ''2''],
       Prompt prompt_white] @ Entered ''QUIT'' # [Print ''Game ended by user.''])"
proof -
  let ?g = "\<lparr>board = [], ai_pos = 1\<rparr> :: nim game"
  have q: "lower ''QUIT'' = ''quit''"
    by (simp add: lower_def lower_char_def)
  have r: "board_reset nim_engine = []"
    by (simp add: nim_engine_def)
  have l: "legal_moves nim_engine ?g = [''1'', ''2'']"
    by (simp add: legal_moves_def nim_defs)
  have u: "user_phase nim_engine prompt_white ?g 0 [''help'', ''QUIT'', ''1''] =
      (Some User_quit, ?g,
       [Prompt prompt_white, Entered ''help'', Print_moves [''1'', ''2''],
        Prompt prompt_white, Entered ''QUIT'', Print ''Game ended by user.''], [''1''])"
    by (simp add: user_phase_def l) (simp add: lower_def lower_char_def)
  have p: "play nim_engine 1 (\<lambda>move. []) [''help'', ''QUIT'', ''1''] =
     (User_quit, ?g,
      [Display True [], Prompt prompt_white, Entered ''help'', Print_moves [''1'', ''2''],
       Prompt prompt_white] @ Entered ''QUIT'' # [Print ''Game ended by user.''])"
    by (simp add: play_def main_loop.simps [of nim_engine "\<lambda>move. []" ?g 0] u r)
  from quit_ends_session [OF p refl q] p q show ?thesis by simp
qed

subsection \<open>The end check after every move\<close>

lemma ai_turn_shape:
  assumes "push_flips E" and "ai_turn E rounds g = (r, g', ev)"
  shows "\<exists>c1 c2. list_all is_call c1 \<and> list_all is_call c2 \<and>
           (ev = Act [Get_move_history, Legal_moves, Possible_captures, Possible_checks, Make_ai_move] 5 # c1 \<or>
            (r = None \<and>
             ev = Act [Get_move_history, Legal_moves, Possible_captures, Possible_checks, Make_ai_move] 5 #
                  c1 @ Pushed (board g') # c2))"
proof -
  let ?tools = "[Get_move_history, Legal_moves, Possible_captures, Possible_checks, Make_ai_move]"
  obtain ga eva where rc: "run_calls E ?tools (concat (take 5 rounds)) g = (ga, eva)"
    by (cases "run_calls E ?tools (concat (take 5 rounds)) g")
  obtain rf gf evf where f: "failsafe E ga = (rf, gf, evf)" by (cases "failsafe E ga") auto
  from rc f assms(2) have r: "r = rf" and g': "g' = gf" and ev: "ev = Act ?tools 5 # eva @ evf"
    by (simp_all add: ai_turn_def act_def)
  have nu: "Make_user_move \<notin> set ?tools" by simp
  have "(ga = g \<and> list_all is_call eva) \<or>
        (\<exists>c1 c2. eva = c1 @ Pushed (board ga) # c2 \<and> list_all is_call c1 \<and> list_all is_call c2 \<and>
           \<not> is_ai_turn E ga)"
  proof (cases "is_ai_turn E g")
    case True
    from run_calls_one_push [OF assms(1) nu True rc] show ?thesis .
  next
    case False
    from run_calls_idle [OF False nu rc] show ?thesis by simp
  qed
  then show ?thesis
  proof (elim disjE conjE exE)
    assume calls: "list_all is_call eva"
    from failsafe_cases [OF f]
    consider "evf = []" | m where "evf = [Call Make_ai_move m]"
      | m where "rf = None" "evf = [Call Make_ai_move m, Pushed (board gf)]"
      by auto
    then show ?thesis
    proof cases
      case 1
      with calls ev have "list_all is_call eva \<and> list_all is_call ([] :: 'a event list) \<and> ev = Act ?tools 5 # eva"
        by simp
      then show ?thesis by blast
    next
      case 2
      with calls ev have "list_all is_call (eva @ [Call Make_ai_move m]) \<and>
          list_all is_call ([] :: 'a event list) \<and> ev = Act ?tools 5 # (eva @ [Call Make_ai_move m])"
        by simp
      then show ?thesis by blast
    next
      case 3
      with calls ev r g' have "list_all is_call (eva @ [Call Make_ai_move m]) \<and>
          list_all is_call ([] :: 'a event list) \<and> r = None \<and>
          ev = Act ?tools 5 # (eva @ [Call Make_ai_move m]) @ Pushed (board g') # []"
        by simp
      then show ?thesis by blast
    qed
  next
    fix c1 c2
    assume eva: "eva = c1 @ Pushed (board ga) # c2" and c1: "list_all is_call c1"
      and c2: "list_all is_call c2" and idle: "\<not> is_ai_turn E ga"
    from f idle have "rf = None" "gf = ga" "evf = []" by (simp_all add: failsafe_idle)
    with eva ev r g' have "r = None \<and> ev = Act ?tools 5 # c1 @ Pushed (board g') # c2"
      by simp
    with c1 c2 show ?thesis by blast
  qed
qed

lemma ai_phase_ply:
  assumes "push_flips E" and "ai_phase E rounds g move = (res, g', ev)"
    and "(e, post) \<in> set (marks is_push ev)"
  shows "case res of Some out \<Rightarrow> ply_tail E e out g' post
         | None \<Rightarrow> (\<forall>out gf later. ply_tail E e out gf (post @ later))"
proof -
  let ?tools = "[Get_move_history, Legal_moves, Possible_captures, Possible_checks, Make_ai_move]"
  obtain r g1 ev1 where t: "ai_turn E rounds g = (r, g1, ev1)" by (cases "ai_turn E rounds g") auto
  from ai_turn_shape [OF assms(1) t] obtain c1 c2
    where c1: "list_all is_call c1" and c2: "list_all is_call c2"
      and shape: "ev1 = Act ?tools 5 # c1 \<or> (r = None \<and> ev1 = Act ?tools 5 # c1 @ Pushed (board g1) # c2)"
    by blast
  show ?thesis
  proof (cases r)
    case (Some err)
    with t assms(2) shape have "ev = Act ?tools 5 # c1" by (auto simp: ai_phase_def)
    with assms(3) c1 show ?thesis by (simp add: marks_calls_push)
  next
    case None
    obtain rc evc where c: "end_check E g1 move = (rc, evc)" by (cases "end_check E g1 move")
    with t None assms(2) have ev: "ev = ev1 @ evc" and res: "res = rc" and g': "g' = g1"
      by (simp_all add: ai_phase_def)
    from shape show ?thesis
    proof
      assume "ev1 = Act ?tools 5 # c1"
      with assms(3) c1 end_check_marks_push [OF c] show ?thesis
        by (simp add: ev marks_append marks_calls_push)
    next
      assume "r = None \<and> ev1 = Act ?tools 5 # c1 @ Pushed (board g1) # c2"
      then have "marks is_push ev = [(Pushed (board g1), c2 @ evc)]"
        using c1 c2 end_check_marks_push [OF c]
        by (simp add: ev marks_append marks_calls_push)
      with assms(3) have "e = Pushed (board g1)" and "post = c2 @ evc"
        by simp_all
      with end_check_ply [OF c c2] res g' show ?thesis by (cases rc) simp_all
    qed
  qed
qed

lemma user_loop_ply:
  "user_loop E p g inputs = (r, g', ev, rest) \<Longrightarrow> (e, post) \<in> set (marks is_push ev) \<Longrightarrow>
   r = Moved \<and> e = Pushed (board g') \<and> post = []"
proof (induction inputs arbitrary: g r g' ev rest)
  case Nil
  then show ?case by auto
next
  case (Cons s inputs)
  show ?case
  proof (cases "lower s = ''quit''")
    case True
    with Cons.prems show ?thesis by auto
  next
    case nq: False
    show ?thesis
    proof (cases "lower s = ''help''")
      case True
      obtain r1 g1 ev1 rest1 where u: "user_loop E p g inputs = (r1, g1, ev1, rest1)"
        by (cases "user_loop E p g inputs") auto
      with Cons.prems nq True have "(e, post) \<in> set (marks is_push ev1)" and "r = r1" and "g' = g1"
        by auto
      with Cons.IH [OF u] show ?thesis by simp
    next
      case nh: False
      obtain x gm where m: "make_user_move E s g = (x, gm)" by (cases "make_user_move E s g")
      show ?thesis
      proof (cases x)
        case None
        with Cons.prems nq nh m show ?thesis by auto
      next
        case (Some err)
        show ?thesis
        proof (cases err)
          case (ValueError msg)
          obtain r1 g1 ev1 rest1 where u: "user_loop E p gm inputs = (r1, g1, ev1, rest1)"
            by (cases "user_loop E p gm inputs") auto
          with Cons.prems nq nh m Some ValueError
          have "(e, post) \<in> set (marks is_push ev1)" and "r = r1" and "g' = g1"
            by auto
          with Cons.IH [OF u] show ?thesis by simp
        next
          case IndexError
          with Cons.prems nq nh m Some show ?thesis by auto
        qed
      qed
    qed
  qed
qed

lemma user_phase_ply:
  assumes "user_phase E p g move inputs = (res, g', ev, rest)"
    and "(e, post) \<in> set (marks is_push ev)"
  shows "case res of Some out \<Rightarrow> ply_tail E e out g' post
         | None \<Rightarrow> (\<forall>out gf later. ply_tail E e out gf (post @ later))"
proof -
  obtain r gl evl restl where u: "user_loop E p g inputs = (r, gl, evl, restl)"
    by (cases "user_loop E p g inputs") auto
  show ?thesis
  proof (cases "r = Moved")
    case True
    obtain rc evc where c: "end_check E gl move = (rc, evc)" by (cases "end_check E gl move")
    with u True assms(1) have ev: "ev = evl @ evc" and res: "res = rc" and g': "g' = gl"
      by (simp_all add: user_phase_def)
    with assms(2) end_check_marks_push [OF c]
    obtain t where t: "(e, t) \<in> set (marks is_push evl)" and post: "post = t @ evc"
      by (auto simp: marks_append)
    from user_loop_ply [OF u t] have "e = Pushed (board gl)" and "t = []" by simp_all
    with end_check_ply [OF c, of "[]"] post res g' show ?thesis by (cases rc) simp_all
  next
    case False
    with u assms(1) have "ev = evl"
      by (cases r; simp add: user_phase_def)
    with user_loop_ply [OF u, of e post] assms(2) False show ?thesis by simp
  qed
qed

lemma phases_keep_ply: "push_flips E \<Longrightarrow> phases_keep E is_push (ply_tail E)"
  unfolding phases_keep_def
proof (intro conjI allI impI)
  fix rounds g move res g' ev e post
  assume "push_flips E" and "ai_phase E rounds g move = (res, g', ev)"
    and "(e, post) \<in> set (marks is_push ev)"
  from ai_phase_ply [OF this]
  show "case res of Some out \<Rightarrow> ply_tail E e out g' post
        | None \<Rightarrow> (\<forall>out gf later. ply_tail E e out gf (post @ later))" .
next
  fix p g move inputs res g' ev rest e post
  assume "user_phase E p g move inputs = (res, g', ev, rest)"
    and "(e, post) \<in> set (marks is_push ev)"
  from user_phase_ply [OF this]
  show "case res of Some out \<Rightarrow> ply_tail E e out g' post
        | None \<Rightarrow> (\<forall>out gf later. ply_tail E e out gf (post @ later))" .
qed

text \<open>
  C5. Given an engine in which a pushed move passes the turn: in every session, after
  every pushed move the only events before the line and the picture of \<open>update_board\<close>
  for the new board are tool calls of the running agent invocation, and the end state is
  then taken from that board: if \<open>get_end_state()\<close> has a message for it, the message
  is printed, nothing follows, and the session is over with that message on that board.
  In particular, when the move leaves a checkmate the session ends with
  \<open>Checkmate!\<close>, with no further prompt and no further agent invocation.
\<close>

theorem checkmate_ends_session:
  assumes "push_flips E" and "play E coin agent inputs = (out, g', ev)"
    and "ev = pre @ Pushed b # post"
  shows "\<exists>calls n w rest.
           list_all is_call calls \<and> post = calls @ Board_after_move n # Display w b # rest \<and>
           (\<forall>msg. get_end_state E (g'\<lparr>board := b\<rparr>) = Some msg \<longrightarrow>
              out = Game_over msg \<and> board g' = b \<and> rest = [Print msg]) \<and>
           (board_is_checkmate E b \<longrightarrow>
              out = Game_over ''Checkmate!'' \<and> board g' = b \<and> rest = [Print ''Checkmate!''])"
proof -
  from assms(2) obtain ev0
    where run: "main_loop E agent \<lparr>board = board_reset E, ai_pos = coin\<rparr> 0 inputs = (out, g', ev0)"
    and ev: "ev = Display (coin = 1) (board_reset E) # ev0"
    by (rule play_cases)
  have "(Pushed b, post) \<in> set (marks is_push ev)"
    unfolding assms(3) by (simp add: marks_mid)
  then have m: "(Pushed b, post) \<in> set (marks is_push ev0)"
    by (simp add: ev)
  from main_loop_keeps [OF run m phases_keep_ply [OF assms(1)]]
  obtain calls n w rest where calls: "list_all is_call calls"
    and post: "post = calls @ Board_after_move n # Display w b # rest"
    and fin: "\<forall>msg. get_end_state E (g'\<lparr>board := b\<rparr>) = Some msg \<longrightarrow>
           out = Game_over msg \<and> board g' = b \<and> rest = [Print msg]"
    unfolding ply_tail_def by auto
  have "board_is_checkmate E b \<longrightarrow>
      out = Game_over ''Checkmate!'' \<and> board g' = b \<and> rest = [Print ''Checkmate!'']"
  proof
    assume "board_is_checkmate E b"
    then have "get_end_state E (g'\<lparr>board := b\<rparr>) = Some ''Checkmate!''"
      by (simp add: get_end_state_def)
    with fin show "out = Game_over ''Checkmate!'' \<and> board g' = b \<and> rest = [Print ''Checkmate!'']"
      by blast
  qed
  with calls post fin show ?thesis by blast
qed

theorem checkmate_ends_session_witness:
  "push_flips nim_engine \<and> board_is_checkmate nim_engine [2, 1] \<and>
   play nim_engine 1 (\<lambda>move. [[(Make_ai_move, ''1''), (Legal_moves, '''')]]) [''2''] =
     (Game_over ''Checkmate!'', \<lparr>board = [2, 1], ai_pos = 1\<rparr>,
      [Display True [], Prompt prompt_white, Entered ''2'', Call Make_user_move ''2'', Pushed [2],
       Board_after_move 1, Display True [2],
       Act [Get_move_history, Legal_moves, Possible_captures, Possible_checks, Make_ai_move] 5,
       Call Make_ai_move ''1''] @ Pushed [2, 1] #
      [Call Legal_moves '''', Board_after_move 2, Display True [2, 1], Print ''Checkmate!''])"
proof -
  let ?tools = "[Get_move_history, Legal_moves, Possible_captures, Possible_checks, Make_ai_move]"
  let ?g = "\<lparr>board = [], ai_pos = 1\<rparr> :: nim game"
  let ?g1 = "\<lparr>board = [2], ai_pos = 1\<rparr> :: nim game"
  let ?g2 = "\<lparr>board = [2, 1], ai_pos = 1\<rparr> :: nim game"
  let ?agent = "\<lambda>move :: nat. [[(Make_ai_move, ''1''), (Legal_moves, '''')]]"
  have mate: "board_is_checkmate nim_engine [2, 1]"
    by (simp add: nim_defs)
  have r: "board_reset nim_engine = []"
    by (simp add: nim_engine_def)
  have nq: "lower ''2'' \<noteq> ''quit''" and nh: "lower ''2'' \<noteq> ''help''"
    by (simp_all add: lower_def lower_char_def)
  have m: "make_user_move nim_engine ''2'' ?g = (None, ?g1)"
    by (simp add: make_user_move_def is_ai_turn_def nim_defs)
  have c1: "end_check nim_engine ?g1 0 = (None, [Board_after_move 1, Display True [2]])"
    by (simp add: end_check_def get_end_state_def update_board_def nim_defs)
  have u: "user_phase nim_engine prompt_white ?g 0 [''2''] =
      (None, ?g1,
       [Prompt prompt_white, Entered ''2'', Call Make_user_move ''2'', Pushed [2],
        Board_after_move 1, Display True [2]], [])"
    by (simp add: user_phase_def nq nh m c1)
  have a: "ai_turn nim_engine (?agent 1) ?g1 =
      (None, ?g2, [Act ?tools 5, Call Make_ai_move ''1'', Pushed [2, 1], Call Legal_moves ''''])"
    by (simp add: ai_turn_def act_def call_tool_def failsafe_def make_ai_move_def is_ai_turn_def nim_defs)
  have c2: "end_check nim_engine ?g2 1 =
      (Some (Game_over ''Checkmate!''), [Board_after_move 2, Display True [2, 1], Print ''Checkmate!''])"
    by (simp add: end_check_def get_end_state_def update_board_def nim_defs)
  have ap: "ai_phase nim_engine (?agent 1) ?g1 1 =
      (Some (Game_over ''Checkmate!''), ?g2,
       [Act ?tools 5, Call Make_ai_move ''1'', Pushed [2, 1], Call Legal_moves '''',
        Board_after_move 2, Display True [2, 1], Print ''Checkmate!''])"
    by (simp add: ai_phase_def a c2 del: One_nat_def)
  have p: "play nim_engine 1 ?agent [''2''] =
     (Game_over ''Checkmate!'', ?g2,
      [Display True [], Prompt prompt_white, Entered ''2'', Call Make_user_move ''2'', Pushed [2],
       Board_after_move 1, Display True [2], Act ?tools 5, Call Make_ai_move ''1''] @ Pushed [2, 1] #
      [Call Legal_moves '''', Board_after_move 2, Display True [2, 1], Print ''Checkmate!''])"
    using u ap r
    by (simp add: play_def main_loop.simps [of nim_engine ?agent ?g 0] del: One_nat_def)
  from checkmate_ends_session [OF nim_push_flips p refl] p mate nim_push_flips
  show ?thesis by simp
qed

end
